theory Spec2Isabelle
  imports Main "HOL-Library.Word" "HOL-Library.Monad_Syntax"
begin

section \<open>Data model\<close>

text \<open>
  The engine's grid is a Go \<^verbatim>\<open>[][]byte\<close>: a slice of row slices, each row referring to its
  own backing array. The distributor writes cells in place, so the backing arrays live in
  an explicit store; a grid is the list of its row references. The outer slice is never
  written after it has been built, so it is kept as a value. Functions that only read a
  grid (\<^verbatim>\<open>aliveNeighbours\<close>, \<^verbatim>\<open>getNumAliveCells\<close>) take its contents at the time of the
  call. Go's \<^verbatim>\<open>int\<close> is modelled by
  \<open>int\<close>: every sum the code forms is bounded by twice the extent of an allocated slice
  plus one, far below the range of a machine word. A runtime panic (index out of range,
  division by zero, negative length given to \<^verbatim>\<open>make\<close>) is the value \<open>None\<close>.
\<close>

type_synonym byte = "8 word"
type_synonym ref = nat
type_synonym grid = "ref list"

record Params =
  Turns :: int
  Threads :: int
  ImageWidth :: int
  ImageHeight :: int

record heap =
  arrays :: "ref \<Rightarrow> byte list"
  fresh :: ref

text \<open>The contents of a grid in a store, row by row.\<close>

definition deref :: "heap \<Rightarrow> grid \<Rightarrow> byte list list" where
  "deref h g = map (arrays h) g"

text \<open>Indexing a slice panics outside \<open>0 \<le> i < len\<close>.\<close>

definition index :: "'a list \<Rightarrow> int \<Rightarrow> 'a option" where
  "index xs i = (if 0 \<le> i \<and> i < int (length xs) then Some (xs ! nat i) else None)"

text \<open>\<^verbatim>\<open>g[y][x]\<close> and \<^verbatim>\<open>g[y][x] = v\<close> through the store.\<close>

definition load :: "heap \<Rightarrow> grid \<Rightarrow> int \<Rightarrow> int \<Rightarrow> byte option" where
  "load h g y x = do { r \<leftarrow> index g y; index (arrays h r) x }"

definition store :: "heap \<Rightarrow> grid \<Rightarrow> int \<Rightarrow> int \<Rightarrow> byte \<Rightarrow> heap option" where
  "store h g y x v = do {
     r \<leftarrow> index g y;
     if 0 \<le> x \<and> x < int (length (arrays h r))
     then Some (h\<lparr>arrays := (arrays h)(r := (arrays h r)[nat x := v])\<rparr>)
     else None }"

text \<open>\<^verbatim>\<open>make([]byte, n)\<close>: a new zeroed backing array, aliasing nothing that exists.\<close>

definition make_row :: "int \<Rightarrow> heap \<Rightarrow> (ref \<times> heap) option" where
  "make_row n h =
     (if n < 0 then None
      else Some (fresh h,
                 h\<lparr>arrays := (arrays h)(fresh h := replicate (nat n) 0), fresh := Suc (fresh h)\<rparr>))"

text \<open>
  Lines 47 to 50 of the distributor: \<^verbatim>\<open>tempWorld := make([][]byte, p.ImageHeight)\<close>, then
  one \<^verbatim>\<open>make([]byte, p.ImageWidth)\<close> for each row.
\<close>

fun make_rows :: "nat \<Rightarrow> int \<Rightarrow> heap \<Rightarrow> (grid \<times> heap) option" where
  "make_rows 0 w h = Some ([], h)"
| "make_rows (Suc k) w h =
     (case make_row w h of
        None \<Rightarrow> None
      | Some (r, h') \<Rightarrow>
          (case make_rows k w h' of
             None \<Rightarrow> None
           | Some (rs, h'') \<Rightarrow> Some (r # rs, h'')))"

definition make_tempWorld :: "Params \<Rightarrow> heap \<Rightarrow> (grid \<times> heap) option" where
  "make_tempWorld p h =
     (if ImageHeight p < 0 then None
      else make_rows (nat (ImageHeight p)) (ImageWidth p) h)"

section \<open>Counted loops and the remainder of Go\<close>

text \<open>
  \<^verbatim>\<open>for i := a; i < n; i++ { body }\<close> over a state, stopping at the first panic.
\<close>

function for_loop :: "int \<Rightarrow> int \<Rightarrow> (int \<Rightarrow> 's \<Rightarrow> 's option) \<Rightarrow> 's \<Rightarrow> 's option" where
  "for_loop i n body s =
     (if i < n
      then (case body i s of None \<Rightarrow> None | Some s' \<Rightarrow> for_loop (i + 1) n body s')
      else Some s)"
  by pat_completeness auto
termination
  by (relation "measure (\<lambda>(i, n, body, s). nat (n - i))") auto

declare for_loop.simps [simp del]

text \<open>Go's \<^verbatim>\<open>%\<close> truncates towards zero: the result has the sign of the dividend.\<close>

definition go_rem :: "int \<Rightarrow> int \<Rightarrow> int" where
  "go_rem a b = sgn a * (\<bar>a\<bar> mod \<bar>b\<bar>)"

text \<open>\<^verbatim>\<open>func mod(x, m int) int { return (x + m) % m }\<close>; a zero divisor panics.\<close>

definition go_mod :: "int \<Rightarrow> int \<Rightarrow> int option" where
  "go_mod x m = (if m = 0 then None else Some (go_rem (x + m) m))"

section \<open>The grid stepper\<close>

definition aliveNeighbours :: "byte list list \<Rightarrow> int \<Rightarrow> int \<Rightarrow> Params \<Rightarrow> int option" where
  "aliveNeighbours world y x p =
     for_loop (- 1) 2 (\<lambda>i.
       for_loop (- 1) 2 (\<lambda>j neighbours.
         if i \<noteq> 0 \<or> j \<noteq> 0
         then do {
           r \<leftarrow> go_mod (y + i) (ImageHeight p);
           c \<leftarrow> go_mod (x + j) (ImageWidth p);
           row \<leftarrow> index world r;
           v \<leftarrow> index row c;
           Some (if v \<noteq> 0 then neighbours + 1 else neighbours) }
         else Some neighbours)) 0"

definition getNumAliveCells :: "Params \<Rightarrow> byte list list \<Rightarrow> int option" where
  "getNumAliveCells p world =
     for_loop 0 (ImageHeight p) (\<lambda>y.
       for_loop 0 (ImageWidth p) (\<lambda>x aliveCellsNum. do {
         row \<leftarrow> index world y;
         v \<leftarrow> index row x;
         Some (if v = 255 then aliveCellsNum + 1 else aliveCellsNum) })) 0"

text \<open>The branch of lines 78 to 90: the new value of a cell from its value and its count.\<close>

definition nextCell :: "byte \<Rightarrow> int \<Rightarrow> byte" where
  "nextCell c numAliveNeighbours =
     (if c = 255
      then (if numAliveNeighbours = 2 \<or> numAliveNeighbours = 3 then 255 else 0)
      else (if numAliveNeighbours = 3 then 255 else 0))"

text \<open>Lines 75 to 92: every cell of \<open>tempWorld\<close> is computed from \<open>world\<close>.\<close>

definition computeTurn :: "Params \<Rightarrow> grid \<Rightarrow> grid \<Rightarrow> heap \<Rightarrow> heap option" where
  "computeTurn p world tempWorld h0 =
     for_loop 0 (ImageHeight p) (\<lambda>y.
       for_loop 0 (ImageWidth p) (\<lambda>x h. do {
         numAliveNeighbours \<leftarrow> aliveNeighbours (deref h world) y x p;
         c \<leftarrow> load h world y x;
         store h tempWorld y x (nextCell c numAliveNeighbours) })) h0"

text \<open>Lines 93 to 97: \<open>tempWorld\<close> is copied into \<open>world\<close>, cell by cell.\<close>

definition copyBack :: "Params \<Rightarrow> grid \<Rightarrow> grid \<Rightarrow> heap \<Rightarrow> heap option" where
  "copyBack p world tempWorld h0 =
     for_loop 0 (ImageHeight p) (\<lambda>y.
       for_loop 0 (ImageWidth p) (\<lambda>x h. do {
         v \<leftarrow> load h tempWorld y x;
         store h world y x v })) h0"

text \<open>One generation: the default branch of the select, up to line 97.\<close>

definition generation :: "Params \<Rightarrow> grid \<Rightarrow> grid \<Rightarrow> heap \<Rightarrow> heap option" where
  "generation p world tempWorld h = do {
     h1 \<leftarrow> computeTurn p world tempWorld h;
     copyBack p world tempWorld h1 }"

section \<open>Well-formed grids and the rule as the specification states it\<close>

text \<open>A grid value of \<open>H\<close> rows of \<open>W\<close> cells, both extents positive.\<close>

definition rect :: "int \<Rightarrow> int \<Rightarrow> 'a list list \<Rightarrow> bool" where
  "rect H W g \<longleftrightarrow> 0 < H \<and> 0 < W \<and> int (length g) = H \<and> (\<forall>row\<in>set g. int (length row) = W)"

text \<open>
  In the store: the grid has \<open>H\<close> rows, no two rows share a backing array, every row is
  allocated and has \<open>W\<close> cells. A grid decoded from an RPC request and the grid built by
  \<^verbatim>\<open>make\<close> are of this kind.
\<close>

definition rows_ok :: "heap \<Rightarrow> grid \<Rightarrow> int \<Rightarrow> int \<Rightarrow> bool" where
  "rows_ok h g H W \<longleftrightarrow>
     int (length g) = H \<and> distinct g \<and> (\<forall>r\<in>set g. r < fresh h \<and> int (length (arrays h r)) = W)"

definition binary_cells :: "byte list list \<Rightarrow> bool" where
  "binary_cells g \<longleftrightarrow> (\<forall>row\<in>set g. \<forall>v\<in>set row. v = 0 \<or> v = 255)"

text \<open>
  The eight Moore offsets, the cell at a wrapped position (\<open>mod\<close> is the mathematical
  remainder, in \<open>[0, extent)\<close> for a positive extent), and the number of neighbours that
  satisfy a predicate.
\<close>

definition moore_offsets :: "(int \<times> int) list" where
  "moore_offsets = [(- 1, - 1), (- 1, 0), (- 1, 1), (0, - 1), (0, 1), (1, - 1), (1, 0), (1, 1)]"

definition torus_cell :: "byte list list \<Rightarrow> int \<Rightarrow> int \<Rightarrow> int \<Rightarrow> int \<Rightarrow> byte" where
  "torus_cell g H W y x = g ! nat (y mod H) ! nat (x mod W)"

definition count_around :: "(byte \<Rightarrow> bool) \<Rightarrow> byte list list \<Rightarrow> int \<Rightarrow> int \<Rightarrow> int \<Rightarrow> int \<Rightarrow> int" where
  "count_around P g H W y x =
     (\<Sum>(i, j)\<leftarrow>moore_offsets. of_bool (P (torus_cell g H W (y + i) (x + j))))"

text \<open>
  The specification's rule: the alive neighbours are the Moore neighbours holding 255; an
  alive cell stays alive iff the count is 2 or 3, a dead cell becomes alive iff it is 3.
\<close>

definition spec_neighbour_count :: "byte list list \<Rightarrow> int \<Rightarrow> int \<Rightarrow> int \<Rightarrow> int \<Rightarrow> int" where
  "spec_neighbour_count g H W y x = count_around (\<lambda>v. v = 255) g H W y x"

definition spec_next_alive :: "bool \<Rightarrow> int \<Rightarrow> bool" where
  "spec_next_alive alive n = (if alive then n = 2 \<or> n = 3 else n = 3)"

definition spec_next_cell :: "byte list list \<Rightarrow> int \<Rightarrow> int \<Rightarrow> int \<Rightarrow> int \<Rightarrow> byte" where
  "spec_next_cell g H W y x =
     (if spec_next_alive (g ! nat y ! nat x = 255) (spec_neighbour_count g H W y x) then 255 else 0)"

text \<open>
  What the code computes for a cell, written without the loops: the branch of lines 78 to
  90 applied to the cell and to the number of non-zero Moore neighbours; and the grid of
  these values.
\<close>

definition next_value :: "Params \<Rightarrow> byte list list \<Rightarrow> int \<Rightarrow> int \<Rightarrow> byte" where
  "next_value p w y x =
     nextCell (w ! nat y ! nat x) (count_around (\<lambda>v. v \<noteq> 0) w (ImageHeight p) (ImageWidth p) y x)"

definition next_grid :: "Params \<Rightarrow> byte list list \<Rightarrow> byte list list" where
  "next_grid p w =
     map (\<lambda>y. map (\<lambda>x. next_value p w (int y) (int x)) [0..<nat (ImageWidth p)]) [0..<nat (ImageHeight p)]"

text \<open>The value of a cell of \<open>world\<close> after one generation.\<close>

definition cell_after_generation :: "Params \<Rightarrow> grid \<Rightarrow> grid \<Rightarrow> heap \<Rightarrow> int \<Rightarrow> int \<Rightarrow> byte option" where
  "cell_after_generation p world tempWorld h y x =
     Option.bind (generation p world tempWorld h) (\<lambda>h'. load h' world y x)"

text \<open>The number of cells of a grid that satisfy a predicate.\<close>

definition count_cells :: "(byte \<Rightarrow> bool) \<Rightarrow> byte list list \<Rightarrow> int" where
  "count_cells P g = (\<Sum>row\<leftarrow>g. int (length (filter P row)))"

section \<open>The engine: shared variables, channels, goroutines\<close>

text \<open>
  The package variables of \<^verbatim>\<open>engine/main.go\<close>, lines 35 to 43, and the store. Each channel
  is made with capacity 1: its buffer holds no value or one. A send proceeds when the
  buffer is empty and blocks otherwise; a receive proceeds when the buffer is full and
  blocks otherwise.
\<close>

record engine =
  WORLD :: grid
  PARAMS :: Params
  ALIVECELLS :: int
  COMPLETEDTURNS :: int
  PAUSECHANNEL :: "bool option"
  FINISHEDCHANNEL :: "grid option"
  CANCELCHANNEL :: "bool option"
  NUMBEROFCONTINUES :: int
  DONECANCELINGCHANNEL :: "bool option"
  memory :: heap

text \<open>The zero values of Go: the nil grid, zero counters, empty channels.\<close>

definition init_engine :: engine where
  "init_engine =
     \<lparr>WORLD = [],
      PARAMS = \<lparr>Turns = 0, Threads = 0, ImageWidth = 0, ImageHeight = 0\<rparr>,
      ALIVECELLS = 0, COMPLETEDTURNS = 0,
      PAUSECHANNEL = None, FINISHEDCHANNEL = None, CANCELCHANNEL = None,
      NUMBEROFCONTINUES = 0, DONECANCELINGCHANNEL = None,
      memory = \<lparr>arrays = (\<lambda>r. []), fresh = 0\<rparr>\<rparr>"

text \<open>
  A goroutine is modelled by its control point and its local variables, and advances one
  step at a time; a step reads and writes the shared variables as one statement of the
  source does (the calls to \<^verbatim>\<open>fmt.Println\<close> are left out). A step of the distributor
  either is blocked on a channel, or panics, or yields the next engine and control point.
\<close>

datatype 'a outcome = Blocked | Panicked | Next 'a

text \<open>
  When both the cancel and the pause channel hold a value, the select of line 53 takes
  either; the schedule says which.
\<close>

datatype pick = PickCancel | PickPause

text \<open>The return the distributor takes: line 64 or line 110.\<close>

datatype exit = Cancelled | Completed

text \<open>
  The control points of a Start call, which runs the distributor: line 46 to 50
  (\<open>At_entry\<close>); the loop test and the select of lines 52 and 53, with the loop
  counter (\<open>At_select\<close>); the receive of line 68 (\<open>At_pause_wait\<close>); in the default
  branch lines 75 to 92, 93 to 97, 98, 99 and 100 (\<open>At_compute\<close>, \<open>At_copy\<close>,
  \<open>At_publish\<close>, \<open>At_count\<close>, \<open>At_turns\<close>); in the cancel branch lines 56, 57, the
  loop of lines 58 to 60 with its counter, 61 and 62; after the loop lines 104, 105, the
  loop of lines 106 to 108 with its counter, and 109; then line 67 of Start
  (\<open>At_start_assign\<close>) and its reply.
\<close>

datatype dpc =
    At_entry
  | At_select int
  | At_pause_wait int
  | At_compute int
  | At_copy int
  | At_publish int
  | At_count int
  | At_turns int
  | At_cancel_alive
  | At_cancel_turns
  | At_cancel_send int
  | At_cancel_clear
  | At_cancel_done
  | At_finish_alive
  | At_finish_turns
  | At_finish_send int
  | At_finish_clear
  | At_start_assign exit
  | Start_replied exit grid

text \<open>The parameters of the distributor and its local \<open>tempWorld\<close>.\<close>

record loop_state =
  lp :: Params
  lworld :: grid
  ltemp :: grid
  lpc :: dpc

text \<open>
  One step of the distributor. A loop iteration that takes a pause signal computes no
  generation: after the select the loop counter is incremented all the same.
\<close>

fun distributor_step :: "pick \<Rightarrow> loop_state \<Rightarrow> dpc \<Rightarrow> engine \<Rightarrow> (engine \<times> loop_state) outcome" where
  "distributor_step ch l At_entry e =
     (case make_tempWorld (lp l) (memory e) of
        None \<Rightarrow> Panicked
      | Some (tempWorld, h) \<Rightarrow>
          Next (e\<lparr>PARAMS := lp l, memory := h\<rparr>, l\<lparr>ltemp := tempWorld, lpc := At_select 0\<rparr>))"
| "distributor_step ch l (At_select turns) e =
     (if turns < Turns (lp l)
      then (case (CANCELCHANNEL e, PAUSECHANNEL e) of
              (None, None) \<Rightarrow> Next (e, l\<lparr>lpc := At_compute turns\<rparr>)
            | (Some c, None) \<Rightarrow> Next (e\<lparr>CANCELCHANNEL := None\<rparr>, l\<lparr>lpc := At_cancel_alive\<rparr>)
            | (None, Some pause) \<Rightarrow>
                Next (e\<lparr>PAUSECHANNEL := None\<rparr>,
                      l\<lparr>lpc := (if pause then At_pause_wait turns else At_select (turns + 1))\<rparr>)
            | (Some c, Some pause) \<Rightarrow>
                (case ch of
                   PickCancel \<Rightarrow> Next (e\<lparr>CANCELCHANNEL := None\<rparr>, l\<lparr>lpc := At_cancel_alive\<rparr>)
                 | PickPause \<Rightarrow>
                     Next (e\<lparr>PAUSECHANNEL := None\<rparr>,
                           l\<lparr>lpc := (if pause then At_pause_wait turns else At_select (turns + 1))\<rparr>)))
      else Next (e, l\<lparr>lpc := At_finish_alive\<rparr>))"
| "distributor_step ch l (At_pause_wait turns) e =
     (case PAUSECHANNEL e of
        None \<Rightarrow> Blocked
      | Some tempKey \<Rightarrow>
          Next (e\<lparr>PAUSECHANNEL := None\<rparr>,
                l\<lparr>lpc := (if tempKey = False then At_select (turns + 1) else At_pause_wait turns)\<rparr>))"
| "distributor_step ch l (At_compute turns) e =
     (case computeTurn (lp l) (lworld l) (ltemp l) (memory e) of
        None \<Rightarrow> Panicked
      | Some h \<Rightarrow> Next (e\<lparr>memory := h\<rparr>, l\<lparr>lpc := At_copy turns\<rparr>))"
| "distributor_step ch l (At_copy turns) e =
     (case copyBack (lp l) (lworld l) (ltemp l) (memory e) of
        None \<Rightarrow> Panicked
      | Some h \<Rightarrow> Next (e\<lparr>memory := h\<rparr>, l\<lparr>lpc := At_publish turns\<rparr>))"
| "distributor_step ch l (At_publish turns) e =
     Next (e\<lparr>WORLD := lworld l\<rparr>, l\<lparr>lpc := At_count turns\<rparr>)"
| "distributor_step ch l (At_count turns) e =
     (case getNumAliveCells (lp l) (deref (memory e) (lworld l)) of
        None \<Rightarrow> Panicked
      | Some n \<Rightarrow> Next (e\<lparr>ALIVECELLS := n\<rparr>, l\<lparr>lpc := At_turns turns\<rparr>))"
| "distributor_step ch l (At_turns turns) e =
     Next (e\<lparr>COMPLETEDTURNS := turns + 1\<rparr>, l\<lparr>lpc := At_select (turns + 1)\<rparr>)"
| "distributor_step ch l At_cancel_alive e =
     Next (e\<lparr>ALIVECELLS := 0\<rparr>, l\<lparr>lpc := At_cancel_turns\<rparr>)"
| "distributor_step ch l At_cancel_turns e =
     Next (e\<lparr>COMPLETEDTURNS := 0\<rparr>, l\<lparr>lpc := At_cancel_send 0\<rparr>)"
| "distributor_step ch l (At_cancel_send i) e =
     (if i < NUMBEROFCONTINUES e
      then (case FINISHEDCHANNEL e of
              None \<Rightarrow> Next (e\<lparr>FINISHEDCHANNEL := Some (lworld l)\<rparr>, l\<lparr>lpc := At_cancel_send (i + 1)\<rparr>)
            | Some g \<Rightarrow> Blocked)
      else Next (e, l\<lparr>lpc := At_cancel_clear\<rparr>))"
| "distributor_step ch l At_cancel_clear e =
     Next (e\<lparr>NUMBEROFCONTINUES := 0\<rparr>, l\<lparr>lpc := At_cancel_done\<rparr>)"
| "distributor_step ch l At_cancel_done e =
     (case DONECANCELINGCHANNEL e of
        None \<Rightarrow> Next (e\<lparr>DONECANCELINGCHANNEL := Some True\<rparr>, l\<lparr>lpc := At_start_assign Cancelled\<rparr>)
      | Some b \<Rightarrow> Blocked)"
| "distributor_step ch l At_finish_alive e =
     Next (e\<lparr>ALIVECELLS := 0\<rparr>, l\<lparr>lpc := At_finish_turns\<rparr>)"
| "distributor_step ch l At_finish_turns e =
     Next (e\<lparr>COMPLETEDTURNS := 0\<rparr>, l\<lparr>lpc := At_finish_send 0\<rparr>)"
| "distributor_step ch l (At_finish_send i) e =
     (if i < NUMBEROFCONTINUES e
      then (case FINISHEDCHANNEL e of
              None \<Rightarrow> Next (e\<lparr>FINISHEDCHANNEL := Some (lworld l)\<rparr>, l\<lparr>lpc := At_finish_send (i + 1)\<rparr>)
            | Some g \<Rightarrow> Blocked)
      else Next (e, l\<lparr>lpc := At_finish_clear\<rparr>))"
| "distributor_step ch l At_finish_clear e =
     Next (e\<lparr>NUMBEROFCONTINUES := 0\<rparr>, l\<lparr>lpc := At_start_assign Completed\<rparr>)"
| "distributor_step ch l (At_start_assign how) e =
     Next (e\<lparr>WORLD := lworld l\<rparr>, l\<lparr>lpc := Start_replied how (lworld l)\<rparr>)"
| "distributor_step ch l (Start_replied how g) e = Blocked"

text \<open>The other remote procedures of the engine, and the control points of a call.\<close>

datatype request =
  IsAlreadyRunning Params | Continue | Save | Pause | Execute | Quit | GetAliveCells

datatype handler =
    IsAlreadyRunning_entry Params
  | IsAlreadyRunning_send
  | IsAlreadyRunning_wait
  | IsAlreadyRunning_replied bool exit
  | Continue_entry
  | Continue_wait
  | Continue_replied grid
  | Save_entry
  | Save_replied int grid
  | Pause_entry
  | Pause_read
  | Pause_replied int grid
  | Execute_entry
  | Execute_read
  | Execute_replied int grid
  | Quit_entry
  | Quit_replied int
  | GetAliveCells_entry
  | GetAliveCells_replied int int

fun entry :: "request \<Rightarrow> handler" where
  "entry (IsAlreadyRunning p) = IsAlreadyRunning_entry p"
| "entry Continue = Continue_entry"
| "entry Save = Save_entry"
| "entry Pause = Pause_entry"
| "entry Execute = Execute_entry"
| "entry Quit = Quit_entry"
| "entry GetAliveCells = GetAliveCells_entry"

text \<open>
  One step of a call: \<open>None\<close> when it is blocked on a channel or has replied. The second
  component of the reply of IsAlreadyRunning records whether the call went through lines
  55 and 56.
\<close>

fun handler_step :: "handler \<Rightarrow> engine \<Rightarrow> (engine \<times> handler) option" where
  "handler_step (IsAlreadyRunning_entry p) e =
     (if COMPLETEDTURNS e - 1 > 0
      then (if PARAMS e = p
            then Some (e, IsAlreadyRunning_replied True Completed)
            else Some (e, IsAlreadyRunning_send))
      else Some (e, IsAlreadyRunning_replied False Completed))"
| "handler_step IsAlreadyRunning_send e =
     (case CANCELCHANNEL e of
        None \<Rightarrow> Some (e\<lparr>CANCELCHANNEL := Some True\<rparr>, IsAlreadyRunning_wait)
      | Some c \<Rightarrow> None)"
| "handler_step IsAlreadyRunning_wait e =
     (case DONECANCELINGCHANNEL e of
        None \<Rightarrow> None
      | Some d \<Rightarrow> Some (e\<lparr>DONECANCELINGCHANNEL := None\<rparr>, IsAlreadyRunning_replied False Cancelled))"
| "handler_step Continue_entry e =
     Some (e\<lparr>NUMBEROFCONTINUES := NUMBEROFCONTINUES e + 1\<rparr>, Continue_wait)"
| "handler_step Continue_wait e =
     (case FINISHEDCHANNEL e of
        None \<Rightarrow> None
      | Some g \<Rightarrow> Some (e\<lparr>FINISHEDCHANNEL := None\<rparr>, Continue_replied g))"
| "handler_step Save_entry e = Some (e, Save_replied (COMPLETEDTURNS e) (WORLD e))"
| "handler_step Pause_entry e =
     (case PAUSECHANNEL e of
        None \<Rightarrow> Some (e\<lparr>PAUSECHANNEL := Some True\<rparr>, Pause_read)
      | Some b \<Rightarrow> None)"
| "handler_step Pause_read e = Some (e, Pause_replied (COMPLETEDTURNS e) (WORLD e))"
| "handler_step Execute_entry e =
     (case PAUSECHANNEL e of
        None \<Rightarrow> Some (e\<lparr>PAUSECHANNEL := Some False\<rparr>, Execute_read)
      | Some b \<Rightarrow> None)"
| "handler_step Execute_read e = Some (e, Execute_replied (COMPLETEDTURNS e) (WORLD e))"
| "handler_step Quit_entry e = Some (e, Quit_replied (COMPLETEDTURNS e))"
| "handler_step GetAliveCells_entry e =
     Some (e, GetAliveCells_replied (ALIVECELLS e) (COMPLETEDTURNS e))"
| "handler_step h e = None"

text \<open>The grid of a Start request, decoded into newly allocated rows.\<close>

fun alloc_rows :: "byte list list \<Rightarrow> heap \<Rightarrow> grid \<times> heap" where
  "alloc_rows [] h = ([], h)"
| "alloc_rows (row # rows) h =
     (case alloc_rows rows (h\<lparr>arrays := (arrays h)(fresh h := row), fresh := Suc (fresh h)\<rparr>) of
        (rs, h') \<Rightarrow> (fresh h # rs, h'))"

text \<open>
  The system: the engine, the Start call if one has been made (the model follows one run:
  a second Start call has no step), the other calls in the order of their arrival, and
  whether a goroutine has panicked, which ends the process.
\<close>

record sys =
  eng :: engine
  loop :: "loop_state option"
  handlers :: "handler list"
  crashed :: bool

definition init_sys :: sys where
  "init_sys = \<lparr>eng = init_engine, loop = None, handlers = [], crashed = False\<rparr>"

text \<open>
  A schedule is a list of labels: a call arrives, or the distributor or the call at a
  given position takes its next step. A label whose step is blocked has no successor.
\<close>

datatype label =
    Call_Start Params "byte list list"
  | Call request
  | Loop_step pick
  | Handler_step nat

fun sys_step :: "label \<Rightarrow> sys \<Rightarrow> sys option" where
  "sys_step (Call_Start p rows) s =
     (if crashed s then None
      else (case loop s of
              Some l \<Rightarrow> None
            | None \<Rightarrow>
                (case alloc_rows rows (memory (eng s)) of
                   (world, h) \<Rightarrow>
                     Some (s\<lparr>eng := (eng s)\<lparr>memory := h\<rparr>,
                              loop := Some \<lparr>lp = p, lworld = world, ltemp = [], lpc = At_entry\<rparr>\<rparr>))))"
| "sys_step (Call r) s =
     (if crashed s then None else Some (s\<lparr>handlers := handlers s @ [entry r]\<rparr>))"
| "sys_step (Loop_step ch) s =
     (if crashed s then None
      else (case loop s of
              None \<Rightarrow> None
            | Some l \<Rightarrow>
                (case distributor_step ch l (lpc l) (eng s) of
                   Blocked \<Rightarrow> None
                 | Panicked \<Rightarrow> Some (s\<lparr>crashed := True\<rparr>)
                 | Next (e, l') \<Rightarrow> Some (s\<lparr>eng := e, loop := Some l'\<rparr>))))"
| "sys_step (Handler_step i) s =
     (if crashed s \<or> \<not> i < length (handlers s) then None
      else (case handler_step (handlers s ! i) (eng s) of
              None \<Rightarrow> None
            | Some (e, h) \<Rightarrow> Some (s\<lparr>eng := e, handlers := (handlers s)[i := h]\<rparr>)))"

fun exec :: "label list \<Rightarrow> sys \<Rightarrow> sys option" where
  "exec [] s = Some s"
| "exec (a # as) s = (case sys_step a s of None \<Rightarrow> None | Some s' \<Rightarrow> exec as s')"

section \<open>Observations on the engine\<close>

text \<open>A run is active while a Start call has entered the distributor and has not replied.\<close>

fun replied :: "dpc \<Rightarrow> bool" where
  "replied (Start_replied how g) = True"
| "replied pc = False"

definition run_active :: "sys \<Rightarrow> bool" where
  "run_active s = (case loop s of None \<Rightarrow> False | Some l \<Rightarrow> \<not> replied (lpc l))"

text \<open>The control point of the distributor, if a Start call has been made.\<close>

definition loop_pc :: "sys \<Rightarrow> dpc option" where
  "loop_pc s = map_option lpc (loop s)"

text \<open>The labels that issue a Start call or a Continue call.\<close>

fun is_start :: "label \<Rightarrow> bool" where
  "is_start (Call_Start p rows) = True"
| "is_start a = False"

fun is_continue_call :: "label \<Rightarrow> bool" where
  "is_continue_call (Call Continue) = True"
| "is_continue_call a = False"

text \<open>Progress as the status queries report it: completed turns and alive cells.\<close>

definition progress :: "sys \<Rightarrow> int \<times> int" where
  "progress s = (COMPLETEDTURNS (eng s), ALIVECELLS (eng s))"

text \<open>What a test of the engine can see of a state.\<close>

definition snapshot :: "sys \<Rightarrow> dpc option \<times> (int \<times> int) \<times> Params \<times> handler list" where
  "snapshot s = (loop_pc s, progress s, PARAMS (eng s), handlers s)"

section \<open>Control points and invariants of the engine\<close>

text \<open>The control points after the distributor has sent on \<open>DONECANCELINGCHANNEL\<close>.\<close>

fun done_sent :: "dpc \<Rightarrow> bool" where
  "done_sent (At_start_assign Cancelled) = True"
| "done_sent (Start_replied Cancelled g) = True"
| "done_sent pc = False"

definition cancel_confirmed :: "sys \<Rightarrow> bool" where
  "cancel_confirmed s = (case loop s of None \<Rightarrow> False | Some l \<Rightarrow> done_sent (lpc l))"

text \<open>
  The control points at which the distributor has not yet published a turn of its run, or
  has already reset the counters (lines 56 and 57, or 104 and 105).
\<close>

fun counters_zero :: "dpc \<Rightarrow> bool" where
  "counters_zero At_entry = True"
| "counters_zero (At_cancel_send i) = True"
| "counters_zero At_cancel_clear = True"
| "counters_zero At_cancel_done = True"
| "counters_zero (At_finish_send i) = True"
| "counters_zero At_finish_clear = True"
| "counters_zero (At_start_assign how) = True"
| "counters_zero (Start_replied how g) = True"
| "counters_zero pc = False"

text \<open>Before any Start call: no distributor, zero counters, the nil grid.\<close>

definition idle_inv :: "sys \<Rightarrow> bool" where
  "idle_inv s \<longleftrightarrow>
     loop s = None \<and> \<not> crashed s \<and> progress s = (0, 0) \<and> WORLD (eng s) = []
     \<and> (\<forall>h\<in>set (handlers s).
           (\<forall>a t. h = GetAliveCells_replied a t \<longrightarrow> a = 0 \<and> t = 0)
         \<and> (\<forall>t g. h = Save_replied t g \<longrightarrow> t = 0 \<and> g = []))"

text \<open>
  The cancellation rendezvous: a value in \<open>DONECANCELINGCHANNEL\<close>, or a caller that has
  received one, means that the distributor has passed line 62; and the completed-turn
  counter is zero unless the distributor is between its first published turn and its
  reset.
\<close>

definition rendezvous_inv :: "sys \<Rightarrow> bool" where
  "rendezvous_inv s \<longleftrightarrow>
     (DONECANCELINGCHANNEL (eng s) \<noteq> None \<longrightarrow> cancel_confirmed s)
     \<and> (\<forall>h\<in>set (handlers s). \<forall>b. h = IsAlreadyRunning_replied b Cancelled \<longrightarrow> b = False \<and> cancel_confirmed s)
     \<and> (case loop s of
           None \<Rightarrow> COMPLETEDTURNS (eng s) = 0
         | Some l \<Rightarrow> counters_zero (lpc l) \<longrightarrow> COMPLETEDTURNS (eng s) = 0)"

section \<open>Runs without signals\<close>

text \<open>No pause signal and no cancel signal is in its channel.\<close>

definition silent :: "sys \<Rightarrow> bool" where
  "silent s \<longleftrightarrow> PAUSECHANNEL (eng s) = None \<and> CANCELCHANNEL (eng s) = None"

text \<open>An execution all of whose states, the first and the last included, satisfy \<open>P\<close>.\<close>

fun exec_within :: "(sys \<Rightarrow> bool) \<Rightarrow> label list \<Rightarrow> sys \<Rightarrow> sys option" where
  "exec_within P [] s = (if P s then Some s else None)"
| "exec_within P (a # as) s =
     (if P s
      then (case sys_step a s of None \<Rightarrow> None | Some s' \<Rightarrow> exec_within P as s')
      else None)"

text \<open>A grid value with the extents the parameters give.\<close>

definition fits :: "Params \<Rightarrow> byte list list \<Rightarrow> bool" where
  "fits p rows \<longleftrightarrow>
     int (length rows) = ImageHeight p \<and> (\<forall>row\<in>set rows. int (length row) = ImageWidth p)"

text \<open>
  The number of generations that \<open>world\<close> holds at a control point of a run that takes no
  signal; \<open>None\<close> at the control points such a run does not reach.
\<close>

fun stage :: "Params \<Rightarrow> dpc \<Rightarrow> nat option" where
  "stage p At_entry = Some 0"
| "stage p (At_select k) = (if 0 \<le> k \<and> (k \<le> Turns p \<or> k = 0) then Some (nat k) else None)"
| "stage p (At_compute k) = (if 0 \<le> k \<and> k < Turns p then Some (nat k) else None)"
| "stage p (At_copy k) = (if 0 \<le> k \<and> k < Turns p then Some (nat k) else None)"
| "stage p (At_publish k) = (if 0 \<le> k \<and> k < Turns p then Some (nat k + 1) else None)"
| "stage p (At_count k) = (if 0 \<le> k \<and> k < Turns p then Some (nat k + 1) else None)"
| "stage p (At_turns k) = (if 0 \<le> k \<and> k < Turns p then Some (nat k + 1) else None)"
| "stage p At_finish_alive = Some (nat (Turns p))"
| "stage p At_finish_turns = Some (nat (Turns p))"
| "stage p (At_finish_send i) = Some (nat (Turns p))"
| "stage p At_finish_clear = Some (nat (Turns p))"
| "stage p (At_start_assign Completed) = Some (nat (Turns p))"
| "stage p (Start_replied Completed g) = Some (nat (Turns p))"
| "stage p pc = None"

definition quiet_inv :: "Params \<Rightarrow> byte list list \<Rightarrow> sys \<Rightarrow> bool" where
  "quiet_inv p rows s \<longleftrightarrow>
     \<not> crashed s
     \<and> (\<exists>l. loop s = Some l \<and> lp l = p
          \<and> rows_ok (memory (eng s)) (lworld l) (ImageHeight p) (ImageWidth p)
          \<and> (lpc l \<noteq> At_entry \<longrightarrow>
                rows_ok (memory (eng s)) (ltemp l) (ImageHeight p) (ImageWidth p)
              \<and> set (lworld l) \<inter> set (ltemp l) = {})
          \<and> (\<exists>n. stage p (lpc l) = Some n
                 \<and> deref (memory (eng s)) (lworld l) = (next_grid p ^^ n) rows)
          \<and> (\<forall>k. lpc l = At_copy k \<longrightarrow>
                deref (memory (eng s)) (ltemp l) = next_grid p (deref (memory (eng s)) (lworld l)))
          \<and> (\<forall>how g. lpc l = Start_replied how g \<longrightarrow> g = lworld l))"

text \<open>
  The number of steps the distributor still takes, with no signal and no waiter, before
  the Start call has replied.
\<close>

fun steps_left :: "Params \<Rightarrow> dpc \<Rightarrow> nat" where
  "steps_left p At_entry = 6 * nat (Turns p) + 7"
| "steps_left p (At_select k) = 6 * nat (Turns p - k) + 6"
| "steps_left p (At_compute k) = 6 * nat (Turns p - k) + 5"
| "steps_left p (At_copy k) = 6 * nat (Turns p - k) + 4"
| "steps_left p (At_publish k) = 6 * nat (Turns p - k) + 3"
| "steps_left p (At_count k) = 6 * nat (Turns p - k) + 2"
| "steps_left p (At_turns k) = 6 * nat (Turns p - k) + 1"
| "steps_left p At_finish_alive = 5"
| "steps_left p At_finish_turns = 4"
| "steps_left p (At_finish_send i) = 3"
| "steps_left p At_finish_clear = 2"
| "steps_left p (At_start_assign how) = 1"
| "steps_left p pc = 0"

section \<open>The end of a run: reset, delivery to the waiters, reply\<close>

text \<open>
  The waiters are the Continue calls blocked in their receive (line 75 of the engine); the
  channel \<open>FINISHEDCHANNEL\<close> holds at most one grid.
\<close>

definition waiting :: "handler list \<Rightarrow> int" where
  "waiting hs = int (length (filter (\<lambda>h. h = Continue_wait) hs))"

definition buffered :: "engine \<Rightarrow> int" where
  "buffered e = (case FINISHEDCHANNEL e of None \<Rightarrow> 0 | Some g \<Rightarrow> 1)"

text \<open>
  Lines 56 to 64 and lines 104 to 110 of the distributor are the same sequence: two
  resets, the sends to the waiters, the reset of the waiter count, on cancellation the
  send of the confirmation, and the return into Start.
\<close>

datatype drain = Reset_alive | Reset_turns | Sending int | Clearing | Signalling | Assigning | Replied

fun drain_of :: "dpc \<Rightarrow> (exit \<times> drain) option" where
  "drain_of At_cancel_alive = Some (Cancelled, Reset_alive)"
| "drain_of At_cancel_turns = Some (Cancelled, Reset_turns)"
| "drain_of (At_cancel_send i) = Some (Cancelled, Sending i)"
| "drain_of At_cancel_clear = Some (Cancelled, Clearing)"
| "drain_of At_cancel_done = Some (Cancelled, Signalling)"
| "drain_of At_finish_alive = Some (Completed, Reset_alive)"
| "drain_of At_finish_turns = Some (Completed, Reset_turns)"
| "drain_of (At_finish_send i) = Some (Completed, Sending i)"
| "drain_of At_finish_clear = Some (Completed, Clearing)"
| "drain_of (At_start_assign how) = Some (how, Assigning)"
| "drain_of (Start_replied how g) = Some (how, Replied)"
| "drain_of pc = None"

text \<open>
  Every call that was waiting in \<open>hs0\<close> is, in \<open>hs\<close>, still waiting or has replied with the
  grid \<open>g\<close>.
\<close>

definition served :: "grid \<Rightarrow> handler list \<Rightarrow> handler list \<Rightarrow> bool" where
  "served g hs0 hs \<longleftrightarrow>
     length hs0 \<le> length hs
     \<and> (\<forall>i<length hs0. hs0 ! i = Continue_wait \<longrightarrow>
           hs ! i = Continue_wait \<or> hs ! i = Continue_replied g)"

text \<open>
  The bookkeeping at each point of the sequence: before the sends the count is the number
  of waiters and the channel is empty; during the sends the sends still to come are the
  waiters without a grid in the channel; afterwards only the waiter whose grid is in the
  channel is left.
\<close>

fun accounted :: "drain \<Rightarrow> sys \<Rightarrow> bool" where
  "accounted Reset_alive s \<longleftrightarrow>
     NUMBEROFCONTINUES (eng s) = waiting (handlers s) \<and> FINISHEDCHANNEL (eng s) = None"
| "accounted Reset_turns s \<longleftrightarrow>
     NUMBEROFCONTINUES (eng s) = waiting (handlers s) \<and> FINISHEDCHANNEL (eng s) = None
     \<and> ALIVECELLS (eng s) = 0"
| "accounted (Sending i) s \<longleftrightarrow>
     progress s = (0, 0) \<and> 0 \<le> i \<and> i \<le> NUMBEROFCONTINUES (eng s)
     \<and> NUMBEROFCONTINUES (eng s) - i = waiting (handlers s) - buffered (eng s)"
| "accounted Clearing s \<longleftrightarrow>
     progress s = (0, 0) \<and> waiting (handlers s) = buffered (eng s)"
| "accounted d s \<longleftrightarrow>
     progress s = (0, 0) \<and> NUMBEROFCONTINUES (eng s) = 0
     \<and> waiting (handlers s) = buffered (eng s)"

fun before_signal :: "drain \<Rightarrow> bool" where
  "before_signal Assigning = False"
| "before_signal Replied = False"
| "before_signal d = True"

definition drain_inv :: "exit \<Rightarrow> grid \<Rightarrow> sys \<Rightarrow> sys \<Rightarrow> bool" where
  "drain_inv how g s0 s \<longleftrightarrow>
     \<not> crashed s \<and> memory (eng s) = memory (eng s0)
     \<and> Continue_entry \<notin> set (handlers s)
     \<and> served g (handlers s0) (handlers s)
     \<and> (FINISHEDCHANNEL (eng s) = None \<or> FINISHEDCHANNEL (eng s) = Some g)
     \<and> (\<exists>l d. loop s = Some l \<and> lworld l = g \<and> drain_of (lpc l) = Some (how, d)
            \<and> accounted d s
            \<and> (how = Cancelled \<and> before_signal d \<longrightarrow> DONECANCELINGCHANNEL (eng s) = None)
            \<and> (\<forall>how' g'. lpc l = Start_replied how' g' \<longrightarrow> g' = g))"

text \<open>
  A bound on the steps still to be taken before the Start call has replied and the channel
  is empty: twice the distributor's steps, plus one for a grid in the channel.
\<close>

fun drain_rank :: "drain \<Rightarrow> int \<Rightarrow> nat" where
  "drain_rank Reset_alive n = nat n + 6"
| "drain_rank Reset_turns n = nat n + 5"
| "drain_rank (Sending i) n = nat (n - i) + 4"
| "drain_rank Clearing n = 3"
| "drain_rank Signalling n = 2"
| "drain_rank Assigning n = 1"
| "drain_rank Replied n = 0"

definition drain_measure :: "sys \<Rightarrow> nat" where
  "drain_measure s =
     (case loop s of
        None \<Rightarrow> 0
      | Some l \<Rightarrow>
          (case drain_of (lpc l) of
             None \<Rightarrow> 0
           | Some (how, d) \<Rightarrow> 2 * drain_rank d (NUMBEROFCONTINUES (eng s)) + nat (buffered (eng s))))"

section \<open>Signals in the channels\<close>



text \<open>The channel of the grids, the waiter count and the confirmation channel.\<close>

definition delivery_state :: "sys \<Rightarrow> grid option \<times> int \<times> bool option" where
  "delivery_state s =
     (FINISHEDCHANNEL (eng s), NUMBEROFCONTINUES (eng s), DONECANCELINGCHANNEL (eng s))"

section \<open>Concrete grids\<close>

text \<open>
  A 3 by 3 torus with its middle column alive, in a store that also holds a zeroed second
  grid; and a 1 by 1 torus whose only cell is alive.
\<close>

definition column_params :: Params where
  "column_params = \<lparr>Turns = 2, Threads = 1, ImageWidth = 3, ImageHeight = 3\<rparr>"

definition column_rows :: "byte list list" where
  "column_rows = [[0, 255, 0], [0, 255, 0], [0, 255, 0]]"

definition column_heap :: heap where
  "column_heap =
     \<lparr>arrays = (\<lambda>r. [])(0 := [0, 255, 0], 1 := [0, 255, 0], 2 := [0, 255, 0],
                          3 := [0, 0, 0], 4 := [0, 0, 0], 5 := [0, 0, 0]),
      fresh = 6\<rparr>"

definition single_params :: Params where
  "single_params = \<lparr>Turns = 1, Threads = 1, ImageWidth = 1, ImageHeight = 1\<rparr>"

definition single_heap :: heap where
  "single_heap = \<lparr>arrays = (\<lambda>r. [])(0 := [255], 1 := [0]), fresh = 2\<rparr>"

definition short_params :: Params where
  "short_params = \<lparr>Turns = 3, Threads = 1, ImageWidth = 1, ImageHeight = 1\<rparr>"

text \<open>Three calls made and served before any Start call.\<close>

definition quiet_calls :: "label list" where
  "quiet_calls = [Call GetAliveCells, Call Save, Call Pause, Handler_step 0, Handler_step 1, Handler_step 2]"

text \<open>
  Schedules on the 1 by 1 grid with three turns: a run up to the select of its second turn
  followed by a query with the same parameters; a run up to the select of its third turn
  followed by the same query; and a run paused at its second turn, with calls served
  while it is paused.
\<close>

definition early_query :: "label list" where
  "early_query =
     Call_Start short_params [[255]] # replicate 7 (Loop_step PickCancel)
       @ [Call (IsAlreadyRunning short_params), Handler_step 0]"

definition later_query :: "label list" where
  "later_query =
     Call_Start short_params [[255]] # replicate 13 (Loop_step PickCancel)
       @ [Call (IsAlreadyRunning short_params)]"




definition two_waiters_cancel :: "label list" where
  "two_waiters_cancel =
     [Call Continue, Call Continue, Handler_step 0, Handler_step 1, Call_Start short_params [[255]]]
       @ replicate 13 (Loop_step PickCancel)
       @ [Call (IsAlreadyRunning column_params), Handler_step 2, Handler_step 2]"



text \<open>
  A run in its third turn is cancelled by a query with other parameters. The distributor
  takes the signal, resets the counters and leaves the loop of lines 58 to 60 with no
  waiter counted; then a Continue call increments the waiter count (main.go line 74) and
  waits for the grid (line 75).
\<close>

definition late_waiter_registers :: "label list" where
  "late_waiter_registers =
     Call_Start short_params [[255]] # replicate 13 (Loop_step PickCancel)
       @ [Call (IsAlreadyRunning column_params), Handler_step 0, Handler_step 0]
       @ replicate 4 (Loop_step PickCancel)
       @ [Call Continue, Handler_step 1]"

text \<open>
  The distributor goes on with lines 61 and 62, the query receives the confirmation and
  replies, and Start returns.
\<close>

definition late_waiter_cancel :: "label list" where
  "late_waiter_cancel =
     late_waiter_registers
       @ [Loop_step PickCancel, Loop_step PickCancel, Handler_step 0, Loop_step PickCancel]"

section \<open>Loops, indexing and the remainder\<close>

lemma for_loop_step: "i < n \<Longrightarrow> for_loop i n body s = (case body i s of None \<Rightarrow> None | Some s' \<Rightarrow> for_loop (i + 1) n body s')"
  by (subst for_loop.simps) simp
lemma for_loop_done: "\<not> i < n \<Longrightarrow> for_loop i n body s = Some s"
  by (subst for_loop.simps) simp

lemma for_loop_inv:
  assumes "I i s" and "i \<le> n"
    and "\<And>k t. i \<le> k \<Longrightarrow> k < n \<Longrightarrow> I k t \<Longrightarrow> \<exists>t'. body k t = Some t' \<and> I (k + 1) t'"
  shows "\<exists>s'. for_loop i n body s = Some s' \<and> I n s'"
  using assms
proof (induction i n body s rule: for_loop.induct)
  case (1 i n body s)
  show ?case
  proof (cases "i < n")
    case True
    from 1(4)[of i s] True 1(2) obtain t where t: "body i s = Some t" "I (i + 1) t"
      by auto
    have "\<exists>s'. for_loop (i + 1) n body t = Some s' \<and> I n s'"
    proof (rule 1(1)[OF True t(1) t(2)])
      show "i + 1 \<le> n" using True by simp
    next
      fix k u assume "i + 1 \<le> k" "k < n" "I k u"
      then show "\<exists>t'. body k u = Some t' \<and> I (k + 1) t'"
        using 1(4)[of k u] by simp
    qed
    then show ?thesis using True t(1) by (simp add: for_loop_step)
  next
    case False
    then have "i = n" using 1(3) by simp
    then show ?thesis using 1(2) by (simp add: for_loop_done)
  qed
qed

lemma go_mod_in_range:
  assumes "0 < m" "- 1 \<le> x" "x \<le> m"
  shows "go_mod x m = Some (x mod m)"
proof -
  have "0 \<le> x + m" using assms by simp
  then have "go_rem (x + m) m = (x + m) mod m"
    using assms(1) by (cases "x + m = 0") (simp_all add: go_rem_def sgn_if)
  then show ?thesis using assms(1) by (simp add: go_mod_def)
qed

lemma index_in_range: "0 \<le> i \<Longrightarrow> i < int (length xs) \<Longrightarrow> index xs i = Some (xs ! nat i)"
  by (simp add: index_def)

lemma bump_of_bool: "(if c then n + 1 else n) = n + (of_bool c :: int)"
  by simp

lemma index_torus:
  assumes "rect H W g" "- 1 \<le> y" "y \<le> H" "- 1 \<le> x" "x \<le> W"
  shows "Option.bind (go_mod y H) (\<lambda>r. Option.bind (go_mod x W) (\<lambda>c.
           Option.bind (index g r) (\<lambda>row. Option.bind (index row c) f))) = f (torus_cell g H W y x)"
proof -
  have H: "0 < H" and W: "0 < W" and len: "int (length g) = H" using assms(1) by (auto simp: rect_def)
  have r: "0 \<le> y mod H" "y mod H < int (length g)" using H len by simp_all
  then have "nat (y mod H) < length g" by linarith
  then have "g ! nat (y mod H) \<in> set g" by simp
  then have lrow: "int (length (g ! nat (y mod H))) = W" using assms(1) by (auto simp: rect_def)
  have c: "0 \<le> x mod W" "x mod W < int (length (g ! nat (y mod H)))" using W lrow by simp_all
  show ?thesis
    using assms(2-5) H W r c
    by (simp add: go_mod_in_range index_in_range torus_cell_def)
qed

lemma aliveNeighbours_total:
  assumes "rect (ImageHeight p) (ImageWidth p) w" "0 \<le> y" "y < ImageHeight p" "0 \<le> x" "x < ImageWidth p"
  shows "aliveNeighbours w y x p = Some (count_around (\<lambda>v. v \<noteq> 0) w (ImageHeight p) (ImageWidth p) y x)"
  using assms(2-5)
  by (simp add: aliveNeighbours_def for_loop_step for_loop_done bump_of_bool
      index_torus [OF assms(1)] count_around_def moore_offsets_def
      del: of_bool_eq_iff)

lemma store_in_range:
  assumes "0 \<le> y" "y < int (length dst)" "0 \<le> x" "x < int (length (arrays h (dst ! nat y)))"
  shows "store h dst y x v =
           Some (h\<lparr>arrays := (arrays h)(dst ! nat y := (arrays h (dst ! nat y))[nat x := v])\<rparr>)"
  using assms by (simp add: store_def index_in_range)

lemma load_in_range:
  assumes "0 \<le> y" "y < int (length g)" "0 \<le> x" "x < int (length (arrays h (g ! nat y)))"
  shows "load h g y x = Some (arrays h (g ! nat y) ! nat x)"
  using assms by (simp add: load_def index_in_range)

lemma prefix_update:
  assumes "k < length old"
  shows "(map f [0..<k] @ drop k old)[k := f k] = map f [0..<Suc k] @ drop (Suc k) old"
proof -
  have "drop k old = old ! k # drop (Suc k) old"
    using assms by (simp add: Cons_nth_drop_Suc)
  then show ?thesis
    by (simp add: list_update_append)
qed

lemma fill_row:
  fixes W :: int
  assumes y: "0 \<le> y" "y < int (length dst)"
    and len: "int (length (arrays h0 (dst ! nat y))) = W"
    and rd: "\<And>h x. 0 \<le> x \<Longrightarrow> x < W \<Longrightarrow> fresh h = fresh h0 \<Longrightarrow>
               (\<forall>r. r \<noteq> dst ! nat y \<longrightarrow> arrays h r = arrays h0 r) \<Longrightarrow> rd h x = Some (val x)"
  shows "for_loop 0 W (\<lambda>x h. Option.bind (rd h x) (store h dst y x)) h0 =
           Some (h0\<lparr>arrays := (arrays h0)(dst ! nat y := map (\<lambda>x. val (int x)) [0..<nat W])\<rparr>)"
proof -
  define r where "r = dst ! nat y"
  define old where "old = arrays h0 r"
  define I where "I = (\<lambda>(k::int) (h::heap).
     h = h0\<lparr>arrays := (arrays h0)(r := map (\<lambda>x. val (int x)) [0..<nat k] @ drop (nat k) old)\<rparr>)"
  have lold: "int (length old) = W" using len by (simp add: old_def r_def)
  have W0: "0 \<le> W" using len by linarith
  have init: "I 0 h0" by (simp add: I_def old_def)
  have step: "\<exists>t'. Option.bind (rd t k) (store t dst y k) = Some t' \<and> I (k + 1) t'"
    if k: "0 \<le> k" "k < W" and inv: "I k t" for k t
  proof -
    have t: "t = h0\<lparr>arrays := (arrays h0)(r := map (\<lambda>x. val (int x)) [0..<nat k] @ drop (nat k) old)\<rparr>"
      using inv by (simp add: I_def)
    have "rd t k = Some (val k)"
      by (rule rd [OF k]) (simp_all add: t r_def)
    moreover have nk: "nat k < length old" using k lold by linarith
    moreover have "int (length (arrays t (dst ! nat y))) = W"
      using k lold by (simp add: t r_def [symmetric])
    moreover have "nat (k + 1) = Suc (nat k)" using k by simp
    moreover have "(map (\<lambda>x. val (int x)) [0..<nat k] @ drop (nat k) old)[nat k := val k]
        = map (\<lambda>x. val (int x)) [0..<Suc (nat k)] @ drop (Suc (nat k)) old"
      using prefix_update [OF nk, of "\<lambda>x. val (int x)"] k by simp
    ultimately show ?thesis
      using y k
      by (simp add: store_in_range I_def t r_def [symmetric] del: upt_Suc)
  qed
  have "\<exists>h'. for_loop 0 W (\<lambda>x h. Option.bind (rd h x) (store h dst y x)) h0 = Some h' \<and> I W h'"
  proof (rule for_loop_inv [where I = I])
    show "I 0 h0" by (fact init)
    show "0 \<le> W" by (fact W0)
    show "\<exists>t'. Option.bind (rd t k) (store t dst y k) = Some t' \<and> I (k + 1) t'"
      if "0 \<le> k" "k < W" "I k t" for k t
      using step that by blast
  qed
  then obtain h' where "for_loop 0 W (\<lambda>x h. Option.bind (rd h x) (store h dst y x)) h0 = Some h'" "I W h'"
    by blast
  moreover have "nat W = length old" using lold by linarith
  ultimately show ?thesis by (simp add: I_def r_def)
qed

lemma fill_rows:
  fixes H W :: int
  assumes dst: "int (length dst) = H" "distinct dst" "\<forall>r\<in>set dst. int (length (arrays h0 r)) = W"
    and rd: "\<And>h y x. 0 \<le> y \<Longrightarrow> y < H \<Longrightarrow> 0 \<le> x \<Longrightarrow> x < W \<Longrightarrow> fresh h = fresh h0 \<Longrightarrow>
               (\<forall>r. r \<notin> set dst \<longrightarrow> arrays h r = arrays h0 r) \<Longrightarrow> rd h y x = Some (val y x)"
  shows "\<exists>h'. for_loop 0 H (\<lambda>y. for_loop 0 W (\<lambda>x h. Option.bind (rd h y x) (store h dst y x))) h0 = Some h'
           \<and> fresh h' = fresh h0
           \<and> (\<forall>r. r \<notin> set dst \<longrightarrow> arrays h' r = arrays h0 r)
           \<and> (\<forall>y. 0 \<le> y \<and> y < H \<longrightarrow> arrays h' (dst ! nat y) = map (\<lambda>x. val y (int x)) [0..<nat W])"
proof -
  define I where "I = (\<lambda>(k::int) (h::heap).
      fresh h = fresh h0
    \<and> (\<forall>r. r \<notin> set dst \<longrightarrow> arrays h r = arrays h0 r)
    \<and> (\<forall>y. 0 \<le> y \<and> y < k \<longrightarrow> arrays h (dst ! nat y) = map (\<lambda>x. val y (int x)) [0..<nat W])
    \<and> (\<forall>y. k \<le> y \<and> y < H \<longrightarrow> arrays h (dst ! nat y) = arrays h0 (dst ! nat y)))"
  have H0: "0 \<le> H" using dst(1) by linarith
  have init: "I 0 h0" unfolding I_def by auto
  have step: "\<exists>t'. for_loop 0 W (\<lambda>x h. Option.bind (rd h k x) (store h dst k x)) t = Some t' \<and> I (k + 1) t'"
    if k: "0 \<le> k" "k < H" and inv: "I k t" for k t
  proof -
    have i1: "fresh t = fresh h0"
      and i2: "\<And>r. r \<notin> set dst \<Longrightarrow> arrays t r = arrays h0 r"
      and i3: "\<And>y. 0 \<le> y \<Longrightarrow> y < k \<Longrightarrow> arrays t (dst ! nat y) = map (\<lambda>x. val y (int x)) [0..<nat W]"
      and i4: "\<And>y. k \<le> y \<Longrightarrow> y < H \<Longrightarrow> arrays t (dst ! nat y) = arrays h0 (dst ! nat y)"
      using inv unfolding I_def by blast+
    have kl: "k < int (length dst)" "nat k < length dst" using k dst(1) by simp_all
    have mem: "dst ! nat k \<in> set dst" using kl by simp
    have same: "arrays t (dst ! nat k) = arrays h0 (dst ! nat k)"
      using i4 [of k] k by simp
    have len: "int (length (arrays t (dst ! nat k))) = W"
      using same mem dst(3) by simp
    have rd': "rd h k x = Some (val k x)"
      if "0 \<le> x" "x < W" "fresh h = fresh t" "\<forall>r. r \<noteq> dst ! nat k \<longrightarrow> arrays h r = arrays t r" for h x
    proof (rule rd [OF k that(1,2)])
      show "fresh h = fresh h0" using that(3) i1 by simp
      show "\<forall>r. r \<notin> set dst \<longrightarrow> arrays h r = arrays h0 r"
      proof (intro allI impI)
        fix r assume r: "r \<notin> set dst"
        then have "r \<noteq> dst ! nat k" using mem by blast
        then have "arrays h r = arrays t r" using that(4) by blast
        then show "arrays h r = arrays h0 r" using i2 [OF r] by simp
      qed
    qed
    have other: "dst ! nat y \<noteq> dst ! nat k" if "0 \<le> y" "y < H" "y \<noteq> k" for y
    proof -
      have "nat y < length dst" "nat y \<noteq> nat k" using that k dst(1) by linarith+
      then show ?thesis using dst(2) kl(2) by (simp add: nth_eq_iff_index_eq)
    qed
    define t' where "t' = t\<lparr>arrays := (arrays t)(dst ! nat k := map (\<lambda>x. val k (int x)) [0..<nat W])\<rparr>"
    have t'1: "fresh t' = fresh t" by (simp add: t'_def)
    have t'2: "arrays t' (dst ! nat k) = map (\<lambda>x. val k (int x)) [0..<nat W]" by (simp add: t'_def)
    have t'3: "arrays t' r = arrays t r" if "r \<noteq> dst ! nat k" for r using that by (simp add: t'_def)
    have "I (k + 1) t'"
      unfolding I_def
    proof (intro conjI allI impI)
      show "fresh t' = fresh h0" using t'1 i1 by simp
    next
      fix r assume r: "r \<notin> set dst"
      then have "r \<noteq> dst ! nat k" using mem by blast
      then show "arrays t' r = arrays h0 r" using t'3 i2 [OF r] by simp
    next
      fix y assume y: "0 \<le> y \<and> y < k + 1"
      show "arrays t' (dst ! nat y) = map (\<lambda>x. val y (int x)) [0..<nat W]"
      proof (cases "y = k")
        case True
        then show ?thesis using t'2 by simp
      next
        case False
        then have yk: "y < k" using y by simp
        have "dst ! nat y \<noteq> dst ! nat k" using other [of y] y k False by simp
        then have "arrays t' (dst ! nat y) = arrays t (dst ! nat y)" by (rule t'3)
        then show ?thesis using i3 [of y] y yk by simp
      qed
    next
      fix y assume y: "k + 1 \<le> y \<and> y < H"
      then have "dst ! nat y \<noteq> dst ! nat k" using other [of y] k by simp
      then have "arrays t' (dst ! nat y) = arrays t (dst ! nat y)" by (rule t'3)
      then show "arrays t' (dst ! nat y) = arrays h0 (dst ! nat y)"
        using i4 [of y] y by simp
    qed
    moreover have "for_loop 0 W (\<lambda>x h. Option.bind (rd h k x) (store h dst k x)) t = Some t'"
      unfolding t'_def
      by (rule fill_row [of k dst t W "\<lambda>h x. rd h k x" "val k", OF k(1) kl(1) len rd'])
    ultimately show ?thesis by blast
  qed
  have "\<exists>h'. for_loop 0 H (\<lambda>y. for_loop 0 W (\<lambda>x h. Option.bind (rd h y x) (store h dst y x))) h0 = Some h'
           \<and> I H h'"
  proof (rule for_loop_inv [where I = I])
    show "I 0 h0" by (fact init)
    show "0 \<le> H" by (fact H0)
    show "\<exists>t'. for_loop 0 W (\<lambda>x h. Option.bind (rd h k x) (store h dst k x)) t = Some t' \<and> I (k + 1) t'"
      if "0 \<le> k" "k < H" "I k t" for k t
      using step that by blast
  qed
  then show ?thesis unfolding I_def by blast
qed

section \<open>One generation\<close>

lemma rows_ok_rect:
  assumes "rows_ok h g H W" "0 < H" "0 < W"
  shows "rect H W (deref h g)"
  using assms by (auto simp: rows_ok_def rect_def deref_def)

lemma rows_ok_nth:
  assumes "rows_ok h g H W" "0 \<le> y" "y < H"
  shows "y < int (length g)" "nat y < length g" "g ! nat y \<in> set g"
    "int (length (arrays h (g ! nat y))) = W"
proof -
  have len: "int (length g) = H" using assms(1) by (simp add: rows_ok_def)
  show 1: "y < int (length g)" using len assms(3) by simp
  show 2: "nat y < length g" using 1 assms(2) by linarith
  show 3: "g ! nat y \<in> set g" using 2 by simp
  show "int (length (arrays h (g ! nat y))) = W" using 3 assms(1) by (simp add: rows_ok_def)
qed

lemma deref_frame:
  assumes "\<forall>r\<in>set g. arrays h' r = arrays h r"
  shows "deref h' g = deref h g"
  using assms by (simp add: deref_def)

lemma computeTurn_result:
  assumes w: "rows_ok h world (ImageHeight p) (ImageWidth p)"
    and t: "rows_ok h tempWorld (ImageHeight p) (ImageWidth p)"
    and disj: "set world \<inter> set tempWorld = {}"
  shows "\<exists>h1. computeTurn p world tempWorld h = Some h1
           \<and> fresh h1 = fresh h
           \<and> (\<forall>r. r \<notin> set tempWorld \<longrightarrow> arrays h1 r = arrays h r)
           \<and> (\<forall>y. 0 \<le> y \<and> y < ImageHeight p \<longrightarrow>
                 arrays h1 (tempWorld ! nat y) =
                   map (\<lambda>x. next_value p (deref h world) y (int x)) [0..<nat (ImageWidth p)])"
proof -
  define rd where "rd = (\<lambda>h' y x. Option.bind (aliveNeighbours (deref h' world) y x p)
      (\<lambda>n. Option.bind (load h' world y x) (\<lambda>c. Some (nextCell c n))))"
  have eq: "computeTurn p world tempWorld h =
      for_loop 0 (ImageHeight p) (\<lambda>y. for_loop 0 (ImageWidth p)
        (\<lambda>x h'. Option.bind (rd h' y x) (store h' tempWorld y x))) h"
    by (simp add: computeTurn_def rd_def)
  have rd: "rd h' y x = Some (next_value p (deref h world) y x)"
    if y: "0 \<le> y" "y < ImageHeight p" and x: "0 \<le> x" "x < ImageWidth p"
      and fr: "\<forall>r. r \<notin> set tempWorld \<longrightarrow> arrays h' r = arrays h r" for h' y x
  proof -
    have same: "\<forall>r\<in>set world. arrays h' r = arrays h r" using fr disj by blast
    then have d: "deref h' world = deref h world" by (rule deref_frame)
    have rc: "rect (ImageHeight p) (ImageWidth p) (deref h world)"
      using rows_ok_rect [OF w] y x by simp
    note yl = rows_ok_nth(1,2) [OF w y]
    note mem = rows_ok_nth(3) [OF w y]
    have "int (length (arrays h (world ! nat y))) = ImageWidth p" by (rule rows_ok_nth(4) [OF w y])
    then have xl: "x < int (length (arrays h' (world ! nat y)))" using x same mem by simp
    have "load h' world y x = Some (arrays h (world ! nat y) ! nat x)"
      using load_in_range [OF y(1) yl(1) x(1) xl] same mem by simp
    moreover have "deref h world ! nat y = arrays h (world ! nat y)"
      using yl(2) by (simp add: deref_def)
    ultimately show ?thesis
      using aliveNeighbours_total [OF rc y x] by (simp add: rd_def d next_value_def)
  qed
  have "\<exists>h'. for_loop 0 (ImageHeight p) (\<lambda>y. for_loop 0 (ImageWidth p)
        (\<lambda>x h'. Option.bind (rd h' y x) (store h' tempWorld y x))) h = Some h'
           \<and> fresh h' = fresh h
           \<and> (\<forall>r. r \<notin> set tempWorld \<longrightarrow> arrays h' r = arrays h r)
           \<and> (\<forall>y. 0 \<le> y \<and> y < ImageHeight p \<longrightarrow> arrays h' (tempWorld ! nat y) =
                  map (\<lambda>x. next_value p (deref h world) y (int x)) [0..<nat (ImageWidth p)])"
  proof (rule fill_rows)
    show "int (length tempWorld) = ImageHeight p" "distinct tempWorld"
      "\<forall>r\<in>set tempWorld. int (length (arrays h r)) = ImageWidth p"
      using t by (simp_all add: rows_ok_def)
  qed (use rd in blast)
  then show ?thesis by (simp only: eq)
qed

lemma copyBack_result:
  assumes w: "rows_ok h world (ImageHeight p) (ImageWidth p)"
    and t: "rows_ok h tempWorld (ImageHeight p) (ImageWidth p)"
    and disj: "set world \<inter> set tempWorld = {}"
  shows "\<exists>h2. copyBack p world tempWorld h = Some h2
           \<and> fresh h2 = fresh h
           \<and> (\<forall>r. r \<notin> set world \<longrightarrow> arrays h2 r = arrays h r)
           \<and> (\<forall>y. 0 \<le> y \<and> y < ImageHeight p \<longrightarrow>
                 arrays h2 (world ! nat y) = arrays h (tempWorld ! nat y))"
proof -
  define val where "val = (\<lambda>y x. arrays h (tempWorld ! nat y) ! nat x)"
  have rd: "load h' tempWorld y x = Some (val y x)"
    if y: "0 \<le> y" "y < ImageHeight p" and x: "0 \<le> x" "x < ImageWidth p"
      and fr: "\<forall>r. r \<notin> set world \<longrightarrow> arrays h' r = arrays h r" for h' y x
  proof -
    note yl = rows_ok_nth(1,2) [OF t y]
    note mem = rows_ok_nth(3) [OF t y]
    have "tempWorld ! nat y \<notin> set world" using mem disj by blast
    then have same: "arrays h' (tempWorld ! nat y) = arrays h (tempWorld ! nat y)"
      using fr by blast
    have "int (length (arrays h (tempWorld ! nat y))) = ImageWidth p"
      by (rule rows_ok_nth(4) [OF t y])
    then have xl: "x < int (length (arrays h' (tempWorld ! nat y)))" using x same by simp
    show ?thesis
      using load_in_range [OF y(1) yl(1) x(1) xl] same by (simp add: val_def)
  qed
  have "\<exists>h'. for_loop 0 (ImageHeight p) (\<lambda>y. for_loop 0 (ImageWidth p)
        (\<lambda>x h'. Option.bind (load h' tempWorld y x) (store h' world y x))) h = Some h'
           \<and> fresh h' = fresh h
           \<and> (\<forall>r. r \<notin> set world \<longrightarrow> arrays h' r = arrays h r)
           \<and> (\<forall>y. 0 \<le> y \<and> y < ImageHeight p \<longrightarrow> arrays h' (world ! nat y) =
                  map (\<lambda>x. val y (int x)) [0..<nat (ImageWidth p)])"
  proof (rule fill_rows)
    show "int (length world) = ImageHeight p" "distinct world"
      "\<forall>r\<in>set world. int (length (arrays h r)) = ImageWidth p"
      using w by (simp_all add: rows_ok_def)
  qed (use rd in blast)
  then obtain h2 where h2: "copyBack p world tempWorld h = Some h2" "fresh h2 = fresh h"
     "\<forall>r. r \<notin> set world \<longrightarrow> arrays h2 r = arrays h r"
     "\<forall>y. 0 \<le> y \<and> y < ImageHeight p \<longrightarrow> arrays h2 (world ! nat y) =
                  map (\<lambda>x. val y (int x)) [0..<nat (ImageWidth p)]"
    by (auto simp: copyBack_def)
  have "arrays h2 (world ! nat y) = arrays h (tempWorld ! nat y)"
    if y: "0 \<le> y" "y < ImageHeight p" for y
  proof -
    have "nat (ImageWidth p) = length (arrays h (tempWorld ! nat y))"
      using rows_ok_nth(4) [OF t y] by linarith
    then have "map (\<lambda>x. val y (int x)) [0..<nat (ImageWidth p)] = arrays h (tempWorld ! nat y)"
      by (simp add: val_def map_nth)
    then show ?thesis using h2(4) y by simp
  qed
  then show ?thesis using h2(1-3) by blast
qed

lemma generation_result:
  assumes w: "rows_ok h world (ImageHeight p) (ImageWidth p)"
    and t: "rows_ok h tempWorld (ImageHeight p) (ImageWidth p)"
    and disj: "set world \<inter> set tempWorld = {}"
  shows "\<exists>h2. generation p world tempWorld h = Some h2
           \<and> fresh h2 = fresh h
           \<and> (\<forall>r. r \<notin> set world \<union> set tempWorld \<longrightarrow> arrays h2 r = arrays h r)
           \<and> deref h2 world = next_grid p (deref h world)
           \<and> rows_ok h2 world (ImageHeight p) (ImageWidth p)
           \<and> rows_ok h2 tempWorld (ImageHeight p) (ImageWidth p)"
proof -
  let ?H = "ImageHeight p" and ?W = "ImageWidth p"
  let ?row = "\<lambda>y. map (\<lambda>x. next_value p (deref h world) y (int x)) [0..<nat ?W]"
  from computeTurn_result [OF w t disj] obtain h1 where
    h1: "computeTurn p world tempWorld h = Some h1" "fresh h1 = fresh h"
      "\<And>r. r \<notin> set tempWorld \<Longrightarrow> arrays h1 r = arrays h r"
      "\<And>y. 0 \<le> y \<Longrightarrow> y < ?H \<Longrightarrow> arrays h1 (tempWorld ! nat y) = ?row y"
    by blast
  have lenH: "int (length world) = ?H" "int (length tempWorld) = ?H"
    using w t by (simp_all add: rows_ok_def)
  have row_of: "\<exists>y. 0 \<le> y \<and> y < ?H \<and> r = g ! nat y" if "r \<in> set g" "int (length g) = ?H" for r g
  proof -
    from that(1) obtain n where n: "n < length g" "r = g ! n" by (auto simp: in_set_conv_nth)
    then have "0 \<le> int n \<and> int n < ?H \<and> r = g ! nat (int n)" using that(2) by simp
    then show ?thesis by blast
  qed
  have W0: "int (length (?row y)) = ?W" if "0 \<le> y" "y < ?H" for y
    using rows_ok_nth(4) [OF t that] by simp
  have w1: "rows_ok h1 world ?H ?W"
    using w h1(2) h1(3) disj unfolding rows_ok_def by (metis disjoint_iff)
  have t1: "rows_ok h1 tempWorld ?H ?W"
    unfolding rows_ok_def
  proof (intro conjI ballI)
    show "int (length tempWorld) = ?H" by (fact lenH(2))
    show "distinct tempWorld" using t by (simp add: rows_ok_def)
    fix r assume r: "r \<in> set tempWorld"
    then show "r < fresh h1" using t h1(2) by (simp add: rows_ok_def)
    from row_of [OF r lenH(2)] obtain y where y: "0 \<le> y" "y < ?H" "r = tempWorld ! nat y" by blast
    show "int (length (arrays h1 r)) = ?W"
      using h1(4) [OF y(1,2)] W0 [OF y(1,2)] y(3) by simp
  qed
  from copyBack_result [OF w1 t1 disj] obtain h2 where
    h2: "copyBack p world tempWorld h1 = Some h2" "fresh h2 = fresh h1"
      "\<And>r. r \<notin> set world \<Longrightarrow> arrays h2 r = arrays h1 r"
      "\<And>y. 0 \<le> y \<Longrightarrow> y < ?H \<Longrightarrow> arrays h2 (world ! nat y) = arrays h1 (tempWorld ! nat y)"
    by blast
  have gen: "generation p world tempWorld h = Some h2"
    by (simp add: generation_def h1(1) h2(1))
  have rowy: "arrays h2 (world ! nat y) = ?row y" if "0 \<le> y" "y < ?H" for y
    using h2(4) [OF that] h1(4) [OF that] by simp
  have frame: "\<forall>r. r \<notin> set world \<union> set tempWorld \<longrightarrow> arrays h2 r = arrays h r"
    using h1(3) h2(3) by simp
  have d: "deref h2 world = next_grid p (deref h world)"
  proof (rule nth_equalityI)
    show "length (deref h2 world) = length (next_grid p (deref h world))"
      using lenH(1) by (simp add: deref_def next_grid_def)
  next
    fix n assume "n < length (deref h2 world)"
    then have n: "n < length world" by (simp add: deref_def)
    then have nH: "0 \<le> int n" "int n < ?H" "n < nat ?H" using lenH(1) by simp_all
    show "deref h2 world ! n = next_grid p (deref h world) ! n"
      using rowy [OF nH(1,2)] n nH(3) by (simp add: deref_def next_grid_def)
  qed
  have w2: "rows_ok h2 world ?H ?W"
    unfolding rows_ok_def
  proof (intro conjI ballI)
    show "int (length world) = ?H" by (fact lenH(1))
    show "distinct world" using w by (simp add: rows_ok_def)
    fix r assume r: "r \<in> set world"
    then show "r < fresh h2" using w h1(2) h2(2) by (simp add: rows_ok_def)
    from row_of [OF r lenH(1)] obtain y where y: "0 \<le> y" "y < ?H" "r = world ! nat y" by blast
    show "int (length (arrays h2 r)) = ?W"
      using rowy [OF y(1,2)] W0 [OF y(1,2)] y(3) by simp
  qed
  have t2: "rows_ok h2 tempWorld ?H ?W"
    using t1 h2(2) h2(3) disj unfolding rows_ok_def by (metis disjoint_iff)
  show ?thesis using gen h1(2) h2(2) frame d w2 t2 by simp
qed

lemma count_row:
  assumes len: "int (length row) = W"
  shows "for_loop 0 W (\<lambda>x acc. Option.bind (index row x) (\<lambda>v. Some (if P v then acc + 1 else acc))) a
           = Some (a + int (length (filter P row)))"
proof -
  define I where "I = (\<lambda>(k::int) (acc::int). acc = a + int (length (filter P (take (nat k) row))))"
  have "\<exists>s'. for_loop 0 W (\<lambda>x acc. Option.bind (index row x) (\<lambda>v. Some (if P v then acc + 1 else acc))) a
           = Some s' \<and> I W s'"
  proof (rule for_loop_inv [where I = I])
    show "I 0 a" by (simp add: I_def)
    show "0 \<le> W" using len by linarith
    show "\<exists>t'. Option.bind (index row k) (\<lambda>v. Some (if P v then t + 1 else t)) = Some t' \<and> I (k + 1) t'"
      if k: "0 \<le> k" "k < W" and inv: "I k t" for k t
    proof -
      have kl: "k < int (length row)" "nat k < length row" using k len by linarith+
      have "nat (k + 1) = Suc (nat k)" using k by simp
      then have "take (nat (k + 1)) row = take (nat k) row @ [row ! nat k]"
        using kl(2) by (simp add: take_Suc_conv_app_nth)
      then show ?thesis
        using inv by (simp add: index_in_range [OF k(1) kl(1)] I_def)
    qed
  qed
  moreover have "take (nat W) row = row" using len by simp
  ultimately show ?thesis by (simp add: I_def)
qed

lemma getNumAliveCells_total:
  assumes len: "int (length w) = ImageHeight p"
    and rows: "\<forall>row\<in>set w. int (length row) = ImageWidth p"
  shows "getNumAliveCells p w = Some (count_cells (\<lambda>v. v = 255) w)"
proof -
  let ?P = "\<lambda>v::byte. v = 255"
  define I where "I = (\<lambda>(k::int) (acc::int). acc = count_cells ?P (take (nat k) w))"
  let ?inner = "\<lambda>y. for_loop 0 (ImageWidth p) (\<lambda>x aliveCellsNum.
      Option.bind (index w y) (\<lambda>row. Option.bind (index row x)
        (\<lambda>v. Some (if v = 255 then aliveCellsNum + 1 else aliveCellsNum))))"
  have "\<exists>s'. for_loop 0 (ImageHeight p) ?inner 0 = Some s' \<and> I (ImageHeight p) s'"
  proof (rule for_loop_inv [where I = I])
    show "I 0 0" by (simp add: I_def count_cells_def)
    show "0 \<le> ImageHeight p" using len by linarith
    show "\<exists>t'. ?inner k t = Some t' \<and> I (k + 1) t'"
      if k: "0 \<le> k" "k < ImageHeight p" and inv: "I k t" for k t
    proof -
      have kl: "k < int (length w)" "nat k < length w" using k len by linarith+
      then have "w ! nat k \<in> set w" by simp
      then have lr: "int (length (w ! nat k)) = ImageWidth p" using rows by simp
      have "nat (k + 1) = Suc (nat k)" using k by simp
      then have tk: "take (nat (k + 1)) w = take (nat k) w @ [w ! nat k]"
        using kl(2) by (simp add: take_Suc_conv_app_nth)
      have "?inner k t = Some (t + int (length (filter ?P (w ! nat k))))"
        using count_row [OF lr, of ?P t] by (simp add: index_in_range [OF k(1) kl(1)])
      then show ?thesis using inv by (simp add: I_def tk count_cells_def)
    qed
  qed
  moreover have "take (nat (ImageHeight p)) w = w" using len by simp
  ultimately show ?thesis by (simp add: I_def getNumAliveCells_def)
qed

lemma count_cells_binary:
  assumes "binary_cells g"
  shows "count_cells (\<lambda>v. v = 255) g = count_cells (\<lambda>v. v \<noteq> 0) g"
proof -
  have "filter (\<lambda>v. v = 255) row = filter (\<lambda>v. v \<noteq> 0) row" if "row \<in> set g" for row
    using assms that by (intro filter_cong) (auto simp: binary_cells_def)
  then show ?thesis
    unfolding count_cells_def by (metis (mono_tags, lifting) map_eq_conv)
qed

lemma torus_cell_mem:
  assumes "rect H W g"
  shows "\<exists>row\<in>set g. torus_cell g H W y x \<in> set row"
proof -
  have H: "0 < H" and W: "0 < W" and len: "int (length g) = H" using assms by (auto simp: rect_def)
  have "0 \<le> y mod H" "y mod H < int (length g)" using H len by simp_all
  then have "nat (y mod H) < length g" by linarith
  then have mem: "g ! nat (y mod H) \<in> set g" by simp
  then have lrow: "int (length (g ! nat (y mod H))) = W" using assms by (auto simp: rect_def)
  have "0 \<le> x mod W" "x mod W < int (length (g ! nat (y mod H)))" using W lrow by simp_all
  then have "nat (x mod W) < length (g ! nat (y mod H))" by linarith
  then have "g ! nat (y mod H) ! nat (x mod W) \<in> set (g ! nat (y mod H))" by simp
  then show ?thesis using mem by (auto simp: torus_cell_def)
qed

lemma count_around_binary:
  assumes "rect H W g" "binary_cells g"
  shows "count_around (\<lambda>v. v \<noteq> 0) g H W y x = count_around (\<lambda>v. v = 255) g H W y x"
proof -
  have "torus_cell g H W y' x' \<noteq> 0 \<longleftrightarrow> torus_cell g H W y' x' = 255" for y' x'
    using torus_cell_mem [OF assms(1), of y' x'] assms(2) by (auto simp: binary_cells_def)
  then show ?thesis by (simp add: count_around_def)
qed

lemma next_value_spec:
  assumes "rect (ImageHeight p) (ImageWidth p) g" "binary_cells g"
  shows "next_value p g y x = spec_next_cell g (ImageHeight p) (ImageWidth p) y x"
  by (simp add: next_value_def spec_next_cell_def spec_next_alive_def spec_neighbour_count_def
      nextCell_def count_around_binary [OF assms])

lemma next_grid_binary: "binary_cells (next_grid p w)"
  by (auto simp: binary_cells_def next_grid_def next_value_def nextCell_def)

lemma next_grid_nth:
  assumes "0 \<le> y" "y < ImageHeight p" "0 \<le> x" "x < ImageWidth p"
  shows "next_grid p w ! nat y ! nat x = next_value p w y x"
proof -
  have "nat y < nat (ImageHeight p)" "nat x < nat (ImageWidth p)" using assms by linarith+
  then show ?thesis using assms by (simp add: next_grid_def)
qed

lemma computeTurn_temp:
  assumes w: "rows_ok h world (ImageHeight p) (ImageWidth p)"
    and t: "rows_ok h tempWorld (ImageHeight p) (ImageWidth p)"
    and disj: "set world \<inter> set tempWorld = {}"
    and c: "computeTurn p world tempWorld h = Some h1"
  shows "deref h1 tempWorld = next_grid p (deref h world)"
proof (rule nth_equalityI)
  have len: "int (length tempWorld) = ImageHeight p" using t by (simp add: rows_ok_def)
  then show "length (deref h1 tempWorld) = length (next_grid p (deref h world))"
    by (simp add: deref_def next_grid_def)
  fix n assume "n < length (deref h1 tempWorld)"
  then have n: "n < length tempWorld" by (simp add: deref_def)
  then have nH: "0 \<le> int n" "int n < ImageHeight p" "n < nat (ImageHeight p)"
    using len by simp_all
  from computeTurn_result [OF w t disj] c
  have "\<forall>y. 0 \<le> y \<and> y < ImageHeight p \<longrightarrow> arrays h1 (tempWorld ! nat y) =
      map (\<lambda>x. next_value p (deref h world) y (int x)) [0..<nat (ImageWidth p)]"
    by auto
  from this [rule_format, of "int n"]
  have "arrays h1 (tempWorld ! n) =
      map (\<lambda>x. next_value p (deref h world) (int n) (int x)) [0..<nat (ImageWidth p)]"
    using nH(1,2) by simp
  then show "deref h1 tempWorld ! n = next_grid p (deref h world) ! n"
    using n nH(3) by (simp add: deref_def next_grid_def)
qed

section \<open>Executions of the engine\<close>

lemma exec_invariant:
  assumes "exec sch s = Some s'" and "I s"
    and "\<And>a t t'. a \<in> set sch \<Longrightarrow> I t \<Longrightarrow> sys_step a t = Some t' \<Longrightarrow> I t'"
  shows "I s'"
  using assms
proof (induction sch arbitrary: s)
  case Nil
  then show ?case by simp
next
  case (Cons a sch)
  from Cons.prems(1) obtain t where t: "sys_step a s = Some t" "exec sch t = Some s'"
    by (auto split: option.splits)
  have "I t" using Cons.prems(3) [of a s t] Cons.prems(2) t(1) by simp
  then show ?case
  proof (rule Cons.IH [OF t(2)])
    fix b u u' assume "b \<in> set sch" "I u" "sys_step b u = Some u'"
    then show "I u'" using Cons.prems(3) [of b u u'] by simp
  qed
qed

lemma exec_append:
  "exec (as @ bs) s = (case exec as s of None \<Rightarrow> None | Some t \<Rightarrow> exec bs t)"
  by (induction as arbitrary: s) (auto split: option.splits)

lemma handler_step_frame:
  assumes "handler_step h e = Some (e', h')"
  shows "WORLD e' = WORLD e \<and> PARAMS e' = PARAMS e \<and> ALIVECELLS e' = ALIVECELLS e
       \<and> COMPLETEDTURNS e' = COMPLETEDTURNS e \<and> memory e' = memory e"
  using assms by (cases h) (auto split: option.splits if_splits)

lemma handler_step_Save_replied:
  assumes "handler_step h e = Some (e', Save_replied t g)"
  shows "t = COMPLETEDTURNS e \<and> g = WORLD e"
  using assms by (cases h) (auto split: option.splits if_splits)

lemma handler_step_GetAliveCells_replied:
  assumes "handler_step h e = Some (e', GetAliveCells_replied a t)"
  shows "a = ALIVECELLS e \<and> t = COMPLETEDTURNS e"
  using assms by (cases h) (auto split: option.splits if_splits)

text \<open>The parts of a system step.\<close>

lemma sys_step_Handler_elims:
  assumes "sys_step (Handler_step i) s = Some s'"
  obtains e h where "i < length (handlers s)" "\<not> crashed s"
    "handler_step (handlers s ! i) (eng s) = Some (e, h)"
    "s' = s\<lparr>eng := e, handlers := (handlers s)[i := h]\<rparr>"
  using assms by (auto split: if_splits option.splits)

lemma sys_step_Loop_elims:
  assumes "sys_step (Loop_step ch) s = Some s'"
  obtains (panic) l where "loop s = Some l" "distributor_step ch l (lpc l) (eng s) = Panicked"
      "s' = s\<lparr>crashed := True\<rparr>"
  | (advance) l e l' where "loop s = Some l" "distributor_step ch l (lpc l) (eng s) = Next (e, l')"
      "s' = s\<lparr>eng := e, loop := Some l'\<rparr>"
  using assms by (auto split: if_splits option.splits outcome.splits)

lemma idle_inv_step:
  assumes "idle_inv s" "sys_step a s = Some s'" "\<not> is_start a"
  shows "idle_inv s'"
proof (cases a)
  case (Call_Start p rows)
  then show ?thesis using assms(3) by simp
next
  case (Call r)
  then show ?thesis using assms(1,2)
    by (cases r) (auto simp: idle_inv_def progress_def split: if_splits)
next
  case (Loop_step ch)
  then show ?thesis using assms(1,2) by (auto simp: idle_inv_def split: if_splits)
next
  case (Handler_step i)
  from assms(2) [unfolded Handler_step] obtain e h where
    st: "i < length (handlers s)" "handler_step (handlers s ! i) (eng s) = Some (e, h)"
      "s' = s\<lparr>eng := e, handlers := (handlers s)[i := h]\<rparr>"
    by (rule sys_step_Handler_elims)
  note fr = handler_step_frame [OF st(2)]
  have old: "progress s = (0, 0)" "WORLD (eng s) = []" "loop s = None" "\<not> crashed s"
    using assms(1) by (simp_all add: idle_inv_def)
  have new: "(\<forall>a t. h = GetAliveCells_replied a t \<longrightarrow> a = 0 \<and> t = 0)
         \<and> (\<forall>t g. h = Save_replied t g \<longrightarrow> t = 0 \<and> g = [])"
    using handler_step_Save_replied [of "handlers s ! i" "eng s" e]
      handler_step_GetAliveCells_replied [of "handlers s ! i" "eng s" e] st(2) old
    by (auto simp: progress_def)
  have "\<forall>h'\<in>set ((handlers s)[i := h]).
           (\<forall>a t. h' = GetAliveCells_replied a t \<longrightarrow> a = 0 \<and> t = 0)
         \<and> (\<forall>t g. h' = Save_replied t g \<longrightarrow> t = 0 \<and> g = [])"
  proof
    fix h' assume "h' \<in> set ((handlers s)[i := h])"
    then have "h' = h \<or> h' \<in> set (handlers s)"
      using set_update_subset_insert [of "handlers s" i h] by auto
    then show "(\<forall>a t. h' = GetAliveCells_replied a t \<longrightarrow> a = 0 \<and> t = 0)
         \<and> (\<forall>t g. h' = Save_replied t g \<longrightarrow> t = 0 \<and> g = [])"
      using new assms(1) unfolding idle_inv_def by blast
  qed
  then show ?thesis using old fr st(3) by (simp add: idle_inv_def progress_def)
qed

lemma distributor_step_rendezvous:
  assumes "distributor_step ch l (lpc l) e = Next (e', l')"
  shows "(DONECANCELINGCHANNEL e' \<noteq> None \<longrightarrow> DONECANCELINGCHANNEL e \<noteq> None \<or> done_sent (lpc l'))
       \<and> (done_sent (lpc l) \<longrightarrow> done_sent (lpc l'))
       \<and> ((counters_zero (lpc l) \<longrightarrow> COMPLETEDTURNS e = 0) \<longrightarrow>
            (counters_zero (lpc l') \<longrightarrow> COMPLETEDTURNS e' = 0))"
proof (cases "lpc l")
  case (At_start_assign how)
  then show ?thesis using assms by (cases how) auto
next
  case (Start_replied how g)
  then show ?thesis using assms by simp
qed (use assms in \<open>auto split: option.splits if_splits pick.splits prod.splits\<close>)

lemma handler_step_rendezvous:
  assumes "handler_step h e = Some (e', h')"
  shows "(DONECANCELINGCHANNEL e' \<noteq> None \<longrightarrow> DONECANCELINGCHANNEL e \<noteq> None)
       \<and> (\<forall>b. h' = IsAlreadyRunning_replied b Cancelled \<longrightarrow>
             b = False \<and> (DONECANCELINGCHANNEL e \<noteq> None \<or> h = h'))"
  using assms by (cases h) (auto split: option.splits if_splits)

lemma rendezvous_inv_step:
  assumes inv: "rendezvous_inv s" and st: "sys_step a s = Some s'"
  shows "rendezvous_inv s'"
proof (cases a)
  case (Call_Start p rows)
  with st obtain world h where s': "loop s = None"
    "s' = s\<lparr>eng := (eng s)\<lparr>memory := h\<rparr>,
            loop := Some \<lparr>lp = p, lworld = world, ltemp = [], lpc = At_entry\<rparr>\<rparr>"
    by (auto split: if_splits option.splits prod.splits)
  have nc: "\<not> cancel_confirmed s" using s'(1) by (simp add: cancel_confirmed_def)
  show ?thesis
    using inv nc s'(1) unfolding rendezvous_inv_def s'(2) by (auto simp: cancel_confirmed_def)
next
  case (Call r)
  with st have s': "s' = s\<lparr>handlers := handlers s @ [entry r]\<rparr>" by (auto split: if_splits)
  have "\<forall>b. entry r \<noteq> IsAlreadyRunning_replied b Cancelled" by (cases r) auto
  then show ?thesis
    using inv unfolding rendezvous_inv_def s' by (auto simp: cancel_confirmed_def split: option.splits)
next
  case (Loop_step ch)
  from st [unfolded Loop_step] show ?thesis
  proof (cases rule: sys_step_Loop_elims)
    case (panic l)
    then show ?thesis using inv by (auto simp: rendezvous_inv_def cancel_confirmed_def)
  next
    case (advance l e l')
    note d = distributor_step_rendezvous [OF advance(2)]
    have cc: "cancel_confirmed s \<Longrightarrow> cancel_confirmed s'"
      using d advance(1,3) by (simp add: cancel_confirmed_def)
    have 1: "DONECANCELINGCHANNEL (eng s') \<noteq> None \<longrightarrow> cancel_confirmed s'"
      using d inv cc advance(1,3) by (auto simp: rendezvous_inv_def cancel_confirmed_def)
    have 2: "\<forall>h\<in>set (handlers s'). \<forall>b. h = IsAlreadyRunning_replied b Cancelled \<longrightarrow>
        b = False \<and> cancel_confirmed s'"
      using inv cc advance(3) by (auto simp: rendezvous_inv_def)
    have 3: "counters_zero (lpc l') \<longrightarrow> COMPLETEDTURNS (eng s') = 0"
      using d inv advance(1) unfolding advance(3) by (auto simp: rendezvous_inv_def split: option.splits)
    show ?thesis using 1 2 3 advance(3) unfolding rendezvous_inv_def by auto
  qed
next
  case (Handler_step i)
  from st [unfolded Handler_step] obtain e h where
    hs: "i < length (handlers s)" "handler_step (handlers s ! i) (eng s) = Some (e, h)"
      "s' = s\<lparr>eng := e, handlers := (handlers s)[i := h]\<rparr>"
    by (rule sys_step_Handler_elims)
  note fr = handler_step_frame [OF hs(2)]
  note r = handler_step_rendezvous [OF hs(2)]
  have cc: "cancel_confirmed s' = cancel_confirmed s"
    using hs(3) by (simp add: cancel_confirmed_def)
  have mem: "handlers s ! i \<in> set (handlers s)" using hs(1) by simp
  have 1: "DONECANCELINGCHANNEL (eng s') \<noteq> None \<longrightarrow> cancel_confirmed s'"
    using r inv hs(3) cc by (auto simp: rendezvous_inv_def)
  have new: "\<forall>b. h = IsAlreadyRunning_replied b Cancelled \<longrightarrow> b = False \<and> cancel_confirmed s"
    using r inv mem unfolding rendezvous_inv_def by metis
  have 2: "\<forall>h'\<in>set (handlers s'). \<forall>b. h' = IsAlreadyRunning_replied b Cancelled \<longrightarrow>
        b = False \<and> cancel_confirmed s'"
  proof
    fix h' assume "h' \<in> set (handlers s')"
    then have "h' = h \<or> h' \<in> set (handlers s)"
      using set_update_subset_insert [of "handlers s" i h] hs(3) by auto
    then show "\<forall>b. h' = IsAlreadyRunning_replied b Cancelled \<longrightarrow> b = False \<and> cancel_confirmed s'"
      using new inv cc unfolding rendezvous_inv_def by blast
  qed
  have 3: "case loop s' of None \<Rightarrow> COMPLETEDTURNS (eng s') = 0
         | Some l \<Rightarrow> counters_zero (lpc l) \<longrightarrow> COMPLETEDTURNS (eng s') = 0"
    using inv fr unfolding hs(3) by (auto simp: rendezvous_inv_def split: option.splits)
  show ?thesis using 1 2 3 unfolding rendezvous_inv_def by auto
qed

lemma rendezvous_inv_reachable:
  assumes "exec sch init_sys = Some s"
  shows "rendezvous_inv s"
proof -
  have "rendezvous_inv init_sys"
    by (simp add: rendezvous_inv_def init_sys_def init_engine_def)
  with assms show ?thesis
    by (rule exec_invariant) (use rendezvous_inv_step in blast)
qed

lemma idle_counter:
  assumes "rendezvous_inv s" "\<not> run_active s"
  shows "COMPLETEDTURNS (eng s) = 0"
proof (cases "loop s")
  case None
  then show ?thesis using assms(1) by (simp add: rendezvous_inv_def)
next
  case (Some l)
  then have "replied (lpc l)" using assms(2) by (simp add: run_active_def)
  then have "counters_zero (lpc l)" by (cases "lpc l") simp_all
  then show ?thesis using assms(1) Some by (simp add: rendezvous_inv_def)
qed

section \<open>A run that takes no signal\<close>

lemma make_rows_ok:
  assumes "0 \<le> w"
  shows "\<exists>h'. make_rows k w h = Some ([fresh h..<fresh h + k], h')
           \<and> fresh h' = fresh h + k
           \<and> (\<forall>r. r < fresh h \<longrightarrow> arrays h' r = arrays h r)
           \<and> (\<forall>r. fresh h \<le> r \<and> r < fresh h + k \<longrightarrow> arrays h' r = replicate (nat w) 0)"
proof (induction k arbitrary: h)
  case 0
  then show ?case by auto
next
  case (Suc k)
  define h1 where "h1 = h\<lparr>arrays := (arrays h)(fresh h := replicate (nat w) 0), fresh := Suc (fresh h)\<rparr>"
  have mr: "make_row w h = Some (fresh h, h1)" using assms by (simp add: make_row_def h1_def)
  from Suc.IH [of h1] obtain h' where h':
    "make_rows k w h1 = Some ([fresh h1..<fresh h1 + k], h')"
    "fresh h' = fresh h1 + k"
    "\<forall>r. r < fresh h1 \<longrightarrow> arrays h' r = arrays h1 r"
    "\<forall>r. fresh h1 \<le> r \<and> r < fresh h1 + k \<longrightarrow> arrays h' r = replicate (nat w) 0"
    by blast
  have f1: "fresh h1 = Suc (fresh h)" by (simp add: h1_def)
  have a1: "arrays h1 r = (if r = fresh h then replicate (nat w) 0 else arrays h r)" for r
    by (simp add: h1_def)
  have "make_rows (Suc k) w h = Some (fresh h # [Suc (fresh h)..<Suc (fresh h) + k], h')"
    using mr h'(1) by (simp add: f1)
  moreover have "fresh h # [Suc (fresh h)..<Suc (fresh h) + k] = [fresh h..<fresh h + Suc k]"
    by (subst (2) upt_rec) simp
  moreover have "fresh h' = fresh h + Suc k" using h'(2) f1 by simp
  moreover have "\<forall>r. r < fresh h \<longrightarrow> arrays h' r = arrays h r"
    using h'(3) f1 a1 by simp
  moreover have "\<forall>r. fresh h \<le> r \<and> r < fresh h + Suc k \<longrightarrow> arrays h' r = replicate (nat w) 0"
  proof (intro allI impI)
    fix r assume r: "fresh h \<le> r \<and> r < fresh h + Suc k"
    show "arrays h' r = replicate (nat w) 0"
    proof (cases "r = fresh h")
      case True
      then show ?thesis using h'(3) f1 a1 by simp
    next
      case False
      then show ?thesis using h'(4) f1 r by simp
    qed
  qed
  ultimately show ?case by simp
qed

lemma alloc_rows_ok:
  "\<exists>h'. alloc_rows rows h = ([fresh h..<fresh h + length rows], h')
       \<and> fresh h' = fresh h + length rows
       \<and> (\<forall>r. r < fresh h \<longrightarrow> arrays h' r = arrays h r)
       \<and> map (arrays h') [fresh h..<fresh h + length rows] = rows"
proof (induction rows arbitrary: h)
  case Nil
  then show ?case by simp
next
  case (Cons row rows)
  define h1 where "h1 = h\<lparr>arrays := (arrays h)(fresh h := row), fresh := Suc (fresh h)\<rparr>"
  from Cons.IH [of h1] obtain h' where h':
    "alloc_rows rows h1 = ([fresh h1..<fresh h1 + length rows], h')"
    "fresh h' = fresh h1 + length rows"
    "\<forall>r. r < fresh h1 \<longrightarrow> arrays h' r = arrays h1 r"
    "map (arrays h') [fresh h1..<fresh h1 + length rows] = rows"
    by blast
  have f1: "fresh h1 = Suc (fresh h)" by (simp add: h1_def)
  have a1: "arrays h1 r = (if r = fresh h then row else arrays h r)" for r
    by (simp add: h1_def)
  have up: "fresh h # [Suc (fresh h)..<Suc (fresh h) + length rows]
      = [fresh h..<fresh h + length (row # rows)]"
    by (subst (2) upt_rec) simp
  have 1: "alloc_rows (row # rows) h = (fresh h # [Suc (fresh h)..<Suc (fresh h) + length rows], h')"
    using h'(1) by (simp add: f1 h1_def [symmetric])
  have 2: "fresh h' = fresh h + length (row # rows)" using h'(2) f1 by simp
  have 3: "\<forall>r. r < fresh h \<longrightarrow> arrays h' r = arrays h r"
    using h'(3) f1 a1 by simp
  have 4: "map (arrays h') (fresh h # [Suc (fresh h)..<Suc (fresh h) + length rows]) = row # rows"
    using h'(3,4) f1 a1 by simp
  show ?case
    using 1 2 3 4 unfolding up by (intro exI [of _ h']) (rule conjI | assumption)+
qed

lemma rows_ok_row_of:
  assumes "rows_ok h g H W" "r \<in> set g"
  shows "\<exists>y. 0 \<le> y \<and> y < H \<and> r = g ! nat y"
proof -
  from assms(2) obtain n where n: "n < length g" "r = g ! n" by (auto simp: in_set_conv_nth)
  have "int (length g) = H" using assms(1) by (simp add: rows_ok_def)
  then have "0 \<le> int n \<and> int n < H \<and> r = g ! nat (int n)" using n by simp
  then show ?thesis by blast
qed

lemma rows_ok_frame:
  assumes "rows_ok h g H W" "fresh h \<le> fresh h'" "\<forall>r\<in>set g. arrays h' r = arrays h r"
  shows "rows_ok h' g H W"
  using assms unfolding rows_ok_def by auto

lemma computeTurn_rows_ok:
  assumes w: "rows_ok h world (ImageHeight p) (ImageWidth p)"
    and t: "rows_ok h tempWorld (ImageHeight p) (ImageWidth p)"
    and disj: "set world \<inter> set tempWorld = {}"
    and c: "computeTurn p world tempWorld h = Some h1"
  shows "rows_ok h1 world (ImageHeight p) (ImageWidth p)"
    and "rows_ok h1 tempWorld (ImageHeight p) (ImageWidth p)"
    and "deref h1 world = deref h world"
proof -
  let ?H = "ImageHeight p" and ?W = "ImageWidth p"
  let ?row = "\<lambda>y. map (\<lambda>x. next_value p (deref h world) y (int x)) [0..<nat ?W]"
  from computeTurn_result [OF w t disj] c have
    h1: "fresh h1 = fresh h"
      "\<And>r. r \<notin> set tempWorld \<Longrightarrow> arrays h1 r = arrays h r"
      "\<And>y. 0 \<le> y \<Longrightarrow> y < ?H \<Longrightarrow> arrays h1 (tempWorld ! nat y) = ?row y"
    by auto
  have same: "\<forall>r\<in>set world. arrays h1 r = arrays h r" using h1(2) disj by blast
  show "rows_ok h1 world ?H ?W" using rows_ok_frame [OF w _ same] h1(1) by simp
  show "deref h1 world = deref h world" using same by (rule deref_frame)
  show "rows_ok h1 tempWorld ?H ?W"
    unfolding rows_ok_def
  proof (intro conjI ballI)
    show "int (length tempWorld) = ?H" "distinct tempWorld" using t by (simp_all add: rows_ok_def)
    fix r assume r: "r \<in> set tempWorld"
    then show "r < fresh h1" using t h1(1) by (simp add: rows_ok_def)
    from rows_ok_row_of [OF t r] obtain y where y: "0 \<le> y" "y < ?H" "r = tempWorld ! nat y" by blast
    have "int (length (?row y)) = ?W" using rows_ok_nth(4) [OF t y(1,2)] by simp
    then show "int (length (arrays h1 r)) = ?W" using h1(3) [OF y(1,2)] y(3) by simp
  qed
qed

lemma copyBack_rows_ok:
  assumes w: "rows_ok h world (ImageHeight p) (ImageWidth p)"
    and t: "rows_ok h tempWorld (ImageHeight p) (ImageWidth p)"
    and disj: "set world \<inter> set tempWorld = {}"
    and c: "copyBack p world tempWorld h = Some h2"
  shows "rows_ok h2 world (ImageHeight p) (ImageWidth p)"
    and "rows_ok h2 tempWorld (ImageHeight p) (ImageWidth p)"
    and "deref h2 world = deref h tempWorld"
proof -
  let ?H = "ImageHeight p" and ?W = "ImageWidth p"
  from copyBack_result [OF w t disj] c have
    h2: "fresh h2 = fresh h"
      "\<And>r. r \<notin> set world \<Longrightarrow> arrays h2 r = arrays h r"
      "\<And>y. 0 \<le> y \<Longrightarrow> y < ?H \<Longrightarrow> arrays h2 (world ! nat y) = arrays h (tempWorld ! nat y)"
    by auto
  have same: "\<forall>r\<in>set tempWorld. arrays h2 r = arrays h r" using h2(2) disj by blast
  show "rows_ok h2 tempWorld ?H ?W" using rows_ok_frame [OF t _ same] h2(1) by simp
  have lenH: "int (length world) = ?H" "int (length tempWorld) = ?H"
    using w t by (simp_all add: rows_ok_def)
  show "rows_ok h2 world ?H ?W"
    unfolding rows_ok_def
  proof (intro conjI ballI)
    show "int (length world) = ?H" "distinct world" using w by (simp_all add: rows_ok_def)
    fix r assume r: "r \<in> set world"
    then show "r < fresh h2" using w h2(1) by (simp add: rows_ok_def)
    from rows_ok_row_of [OF w r] obtain y where y: "0 \<le> y" "y < ?H" "r = world ! nat y" by blast
    show "int (length (arrays h2 r)) = ?W"
      using h2(3) [OF y(1,2)] rows_ok_nth(4) [OF t y(1,2)] y(3) by simp
  qed
  show "deref h2 world = deref h tempWorld"
  proof (rule nth_equalityI)
    show "length (deref h2 world) = length (deref h tempWorld)"
      using lenH by (simp add: deref_def)
    fix n assume "n < length (deref h2 world)"
    then have n: "n < length world" "n < length tempWorld" using lenH by (simp_all add: deref_def)
    then have "0 \<le> int n" "int n < ?H" using lenH by simp_all
    from h2(3) [OF this] show "deref h2 world ! n = deref h tempWorld ! n"
      using n by (simp add: deref_def)
  qed
qed

lemma make_tempWorld_ok:
  assumes w: "rows_ok h world (ImageHeight p) (ImageWidth p)"
  shows "\<exists>tempWorld h'. make_tempWorld p h = Some (tempWorld, h')
           \<and> rows_ok h' world (ImageHeight p) (ImageWidth p)
           \<and> rows_ok h' tempWorld (ImageHeight p) (ImageWidth p)
           \<and> set world \<inter> set tempWorld = {}
           \<and> deref h' world = deref h world"
proof -
  let ?H = "ImageHeight p" and ?W = "ImageWidth p"
  have H0: "0 \<le> ?H" using w by (auto simp: rows_ok_def)
  show ?thesis
  proof (cases "?H = 0")
    case True
    then have "make_tempWorld p h = Some ([], h)" by (simp add: make_tempWorld_def)
    moreover have "rows_ok h [] ?H ?W" using True by (simp add: rows_ok_def)
    ultimately show ?thesis using w by simp
  next
    case False
    then have Hp: "0 < ?H" using H0 by simp
    have "int (length (arrays h (world ! nat 0))) = ?W"
      by (rule rows_ok_nth(4) [OF w _ Hp]) simp
    then have W0: "0 \<le> ?W" by linarith
    let ?t = "[fresh h..<fresh h + nat ?H]"
    from make_rows_ok [OF W0, of "nat ?H" h] obtain h' where h':
      "make_rows (nat ?H) ?W h = Some (?t, h')"
      "fresh h' = fresh h + nat ?H"
      "\<forall>r. r < fresh h \<longrightarrow> arrays h' r = arrays h r"
      "\<forall>r. fresh h \<le> r \<and> r < fresh h + nat ?H \<longrightarrow> arrays h' r = replicate (nat ?W) 0"
      by blast
    have mk: "make_tempWorld p h = Some (?t, h')" using h'(1) H0 by (simp add: make_tempWorld_def)
    have below: "\<forall>r\<in>set world. r < fresh h" using w by (simp add: rows_ok_def)
    then have same: "\<forall>r\<in>set world. arrays h' r = arrays h r" using h'(3) by simp
    have w': "rows_ok h' world ?H ?W" using rows_ok_frame [OF w _ same] h'(2) by simp
    have t': "rows_ok h' ?t ?H ?W"
      using h'(2,4) H0 W0 by (auto simp: rows_ok_def)
    have d: "set world \<inter> set ?t = {}" using below by auto
    have "deref h' world = deref h world" using same by (rule deref_frame)
    then show ?thesis using mk w' t' d by blast
  qed
qed

lemma alloc_rows_fits:
  assumes "fits p rows" "alloc_rows rows h = (world, h')"
  shows "rows_ok h' world (ImageHeight p) (ImageWidth p)" and "deref h' world = rows"
proof -
  from alloc_rows_ok [of rows h] assms(2) have
    a: "world = [fresh h..<fresh h + length rows]" "fresh h' = fresh h + length rows"
      "map (arrays h') world = rows"
    by auto
  show d: "deref h' world = rows" using a(3) by (simp add: deref_def)
  have "int (length (arrays h' r)) = ImageWidth p" if "r \<in> set world" for r
  proof -
    have "arrays h' r \<in> set (map (arrays h') world)" using that by simp
    then show ?thesis using assms(1) a(3) by (simp add: fits_def)
  qed
  then show "rows_ok h' world (ImageHeight p) (ImageWidth p)"
    using assms(1) a(1,2) by (auto simp: rows_ok_def fits_def)
qed

lemma fits_width:
  assumes "fits p rows" "0 < ImageHeight p"
  shows "0 \<le> ImageWidth p"
proof -
  have "rows \<noteq> []" using assms by (auto simp: fits_def)
  then obtain row where "row \<in> set rows" by (cases rows) auto
  then have "int (length row) = ImageWidth p" using assms(1) by (simp add: fits_def)
  then show ?thesis by linarith
qed

lemma quiet_inv_loop_step:
  assumes inv: "quiet_inv p rows s" and sil: "silent s" and l: "loop s = Some l"
  shows "distributor_step ch l (lpc l) (eng s) \<noteq> Panicked
       \<and> (\<forall>e l'. distributor_step ch l (lpc l) (eng s) = Next (e, l') \<longrightarrow>
             quiet_inv p rows (s\<lparr>eng := e, loop := Some l'\<rparr>)
           \<and> PAUSECHANNEL e = None \<and> CANCELCHANNEL e = None
           \<and> (NUMBEROFCONTINUES e = NUMBEROFCONTINUES (eng s) \<or> NUMBEROFCONTINUES e = 0))
       \<and> (NUMBEROFCONTINUES (eng s) = 0 \<and> (\<forall>i. lpc l = At_finish_send i \<longrightarrow> 0 \<le> i)
            \<and> \<not> replied (lpc l) \<longrightarrow>
           (\<exists>e l'. distributor_step ch l (lpc l) (eng s) = Next (e, l')
              \<and> Suc (steps_left p (lpc l')) = steps_left p (lpc l)
              \<and> (\<forall>i. lpc l' = At_finish_send i \<longrightarrow> 0 \<le> i)))"
proof -
  let ?H = "ImageHeight p" and ?W = "ImageWidth p" and ?h = "memory (eng s)"
  from inv l obtain n where
    nc: "\<not> crashed s" and lp: "lp l = p"
    and w: "rows_ok ?h (lworld l) ?H ?W"
    and t: "lpc l \<noteq> At_entry \<Longrightarrow> rows_ok ?h (ltemp l) ?H ?W"
    and dj: "lpc l \<noteq> At_entry \<Longrightarrow> set (lworld l) \<inter> set (ltemp l) = {}"
    and st: "stage p (lpc l) = Some n"
    and ct: "deref ?h (lworld l) = (next_grid p ^^ n) rows"
    and cp: "\<And>k. lpc l = At_copy k \<Longrightarrow> deref ?h (ltemp l) = next_grid p (deref ?h (lworld l))"
    by (auto simp: quiet_inv_def)
  have ch: "PAUSECHANNEL (eng s) = None" "CANCELCHANNEL (eng s) = None"
    using sil by (simp_all add: silent_def)
  show ?thesis
  proof (cases "lpc l")
    case At_entry
    from make_tempWorld_ok [OF w] obtain tempWorld h' where m:
      "make_tempWorld p ?h = Some (tempWorld, h')"
      "rows_ok h' (lworld l) ?H ?W" "rows_ok h' tempWorld ?H ?W"
      "set (lworld l) \<inter> set tempWorld = {}" "deref h' (lworld l) = deref ?h (lworld l)"
      by blast
    have n0: "n = 0" using st At_entry by simp
    show ?thesis
      using m nc lp ct ch unfolding At_entry n0
      by (simp add: quiet_inv_def)
  next
    case (At_select k)
    have k: "0 \<le> k" "k \<le> Turns p \<or> k = 0" "n = nat k"
      using st At_select by (auto split: if_splits)
    have fin: "nat k = nat (Turns p)" if "\<not> k < Turns p" using that k by auto
    show ?thesis
      using nc lp w t dj ct ch k fin unfolding At_select
      by (auto simp: quiet_inv_def)
  next
    case (At_compute k)
    have k: "0 \<le> k" "k < Turns p" "n = nat k" using st At_compute by (auto split: if_splits)
    have ne: "lpc l \<noteq> At_entry" using At_compute by simp
    from computeTurn_result [OF w t [OF ne] dj [OF ne]] obtain h1 where
      c: "computeTurn p (lworld l) (ltemp l) ?h = Some h1" by blast
    note r = computeTurn_rows_ok [OF w t [OF ne] dj [OF ne] c]
    note tmp = computeTurn_temp [OF w t [OF ne] dj [OF ne] c]
    show ?thesis
      using c r tmp nc lp dj [OF ne] ct ch k unfolding At_compute
      by (simp add: quiet_inv_def)
  next
    case (At_copy k)
    have k: "0 \<le> k" "k < Turns p" "n = nat k" using st At_copy by (auto split: if_splits)
    have ne: "lpc l \<noteq> At_entry" using At_copy by simp
    from copyBack_result [OF w t [OF ne] dj [OF ne]] obtain h2 where
      c: "copyBack p (lworld l) (ltemp l) ?h = Some h2" by blast
    note r = copyBack_rows_ok [OF w t [OF ne] dj [OF ne] c]
    have "deref h2 (lworld l) = (next_grid p ^^ (nat k + 1)) rows"
      using r(3) cp [OF At_copy] ct k(3) by simp
    then show ?thesis
      using c r(1,2) nc lp dj [OF ne] ch k unfolding At_copy
      by (simp add: quiet_inv_def)
  next
    case (At_count k)
    have k: "0 \<le> k" "k < Turns p" "n = nat k + 1" using st At_count by (auto split: if_splits)
    have ne: "lpc l \<noteq> At_entry" using At_count by simp
    have "getNumAliveCells p (deref ?h (lworld l))
        = Some (count_cells (\<lambda>v. v = 255) (deref ?h (lworld l)))"
      using w by (intro getNumAliveCells_total) (auto simp: rows_ok_def deref_def)
    then show ?thesis
      using nc lp w t [OF ne] dj [OF ne] ct ch k unfolding At_count
      by (simp add: quiet_inv_def)
  next
    case (At_turns k)
    have k: "0 \<le> k" "k < Turns p" "n = nat k + 1" using st At_turns by (auto split: if_splits)
    have ne: "lpc l \<noteq> At_entry" using At_turns by simp
    have a: "nat (k + 1) = nat k + 1" "nat (Turns p - k) = Suc (nat (Turns p - (k + 1)))"
      using k by linarith+
    show ?thesis
      using nc lp w t [OF ne] dj [OF ne] ct ch k a unfolding At_turns
      by (simp add: quiet_inv_def)
  next
    case (At_start_assign how)
    then have how: "how = Completed" using st by (cases how) simp_all
    have ne: "lpc l \<noteq> At_entry" using At_start_assign by simp
    show ?thesis
      using nc lp w t [OF ne] dj [OF ne] ct ch st unfolding At_start_assign how
      by (simp add: quiet_inv_def)
  next
    case (Start_replied how g)
    then show ?thesis by simp
  qed (use nc lp w t dj ct ch st in \<open>auto simp: quiet_inv_def split: option.splits\<close>)
qed

lemma exec_within_invariant:
  assumes "exec_within P sch s = Some s'" and "I s"
    and "\<And>a t t'. I t \<Longrightarrow> P t \<Longrightarrow> sys_step a t = Some t' \<Longrightarrow> I t'"
  shows "I s'"
  using assms(1,2)
proof (induction sch arbitrary: s)
  case Nil
  then show ?case by (simp split: if_splits)
next
  case (Cons a sch)
  from Cons.prems(1) obtain t where t: "P s" "sys_step a s = Some t" "exec_within P sch t = Some s'"
    by (auto split: if_splits option.splits)
  have "I t" using assms(3) [OF Cons.prems(2) t(1,2)] .
  then show ?case using Cons.IH [OF t(3)] by simp
qed

lemma quiet_inv_step:
  assumes inv: "quiet_inv p rows s" and sil: "silent s" and st: "sys_step a s = Some s'"
  shows "quiet_inv p rows s'"
proof (cases a)
  case (Call_Start q rows')
  have "loop s \<noteq> None" using inv by (auto simp: quiet_inv_def)
  then show ?thesis using st Call_Start by (auto split: if_splits option.splits)
next
  case (Call r)
  with st have s': "s' = s\<lparr>handlers := handlers s @ [entry r]\<rparr>" by (auto split: if_splits)
  show ?thesis using inv unfolding s' by (simp add: quiet_inv_def)
next
  case (Loop_step ch)
  from st [unfolded Loop_step] show ?thesis
  proof (cases rule: sys_step_Loop_elims)
    case (panic l)
    then show ?thesis using quiet_inv_loop_step [OF inv sil panic(1), of ch] by simp
  next
    case (advance l e l')
    then show ?thesis using quiet_inv_loop_step [OF inv sil advance(1), of ch] by simp
  qed
next
  case (Handler_step i)
  from st [unfolded Handler_step] obtain e h where
    hs: "handler_step (handlers s ! i) (eng s) = Some (e, h)"
      "s' = s\<lparr>eng := e, handlers := (handlers s)[i := h]\<rparr>"
    by (rule sys_step_Handler_elims)
  note fr = handler_step_frame [OF hs(1)]
  show ?thesis using inv fr unfolding hs(2) by (simp add: quiet_inv_def)
qed

lemma start_quiet_inv:
  assumes "fits p rows"
  shows "\<exists>s. sys_step (Call_Start p rows) init_sys = Some s \<and> quiet_inv p rows s \<and> silent s
           \<and> NUMBEROFCONTINUES (eng s) = 0 \<and> loop_pc s = Some At_entry"
proof -
  obtain world h where a: "alloc_rows rows (memory init_engine) = (world, h)"
    by (cases "alloc_rows rows (memory init_engine)")
  note r = alloc_rows_fits [OF assms a]
  let ?s = "init_sys\<lparr>eng := init_engine\<lparr>memory := h\<rparr>,
                     loop := Some \<lparr>lp = p, lworld = world, ltemp = [], lpc = At_entry\<rparr>\<rparr>"
  have "sys_step (Call_Start p rows) init_sys = Some ?s"
    using a by (simp add: init_sys_def)
  moreover have "quiet_inv p rows ?s"
    using r by (simp add: quiet_inv_def init_sys_def)
  moreover have "silent ?s" "NUMBEROFCONTINUES (eng ?s) = 0" "loop_pc ?s = Some At_entry"
    by (simp_all add: silent_def init_sys_def init_engine_def loop_pc_def)
  ultimately show ?thesis by blast
qed

lemma stage_finished:
  assumes "stage p pc = Some n" "steps_left p pc = 0"
  shows "\<exists>g. pc = Start_replied Completed g"
proof (cases pc)
  case (Start_replied how g)
  then show ?thesis using assms(1) by (cases how) simp_all
qed (use assms in simp_all)

lemma solo_run:
  assumes "quiet_inv p rows s" "silent s" "NUMBEROFCONTINUES (eng s) = 0"
    and "loop s = Some l" "\<forall>i. lpc l = At_finish_send i \<longrightarrow> 0 \<le> i"
    and "steps_left p (lpc l) = m"
  shows "\<exists>s' l'. exec (replicate m (Loop_step ch)) s = Some s' \<and> quiet_inv p rows s'
           \<and> loop s' = Some l' \<and> steps_left p (lpc l') = 0"
  using assms
proof (induction m arbitrary: s l)
  case 0
  then show ?case by simp
next
  case (Suc m)
  have nr: "\<not> replied (lpc l)" using Suc.prems(6) by (cases "lpc l") simp_all
  note q = quiet_inv_loop_step [OF Suc.prems(1,2,4), of ch]
  from q Suc.prems(3,5) nr obtain e l' where
    d: "distributor_step ch l (lpc l) (eng s) = Next (e, l')"
      "Suc (steps_left p (lpc l')) = steps_left p (lpc l)"
      "\<forall>i. lpc l' = At_finish_send i \<longrightarrow> 0 \<le> i"
    by blast
  let ?t = "s\<lparr>eng := e, loop := Some l'\<rparr>"
  from q d(1) have t: "quiet_inv p rows ?t" "PAUSECHANNEL e = None" "CANCELCHANNEL e = None"
    "NUMBEROFCONTINUES e = NUMBEROFCONTINUES (eng s) \<or> NUMBEROFCONTINUES e = 0"
    by blast+
  have nc: "\<not> crashed s" using Suc.prems(1) by (simp add: quiet_inv_def)
  have step: "sys_step (Loop_step ch) s = Some ?t"
    using nc Suc.prems(4) d(1) by simp
  have "\<exists>s' l''. exec (replicate m (Loop_step ch)) ?t = Some s' \<and> quiet_inv p rows s'
           \<and> loop s' = Some l'' \<and> steps_left p (lpc l'') = 0"
  proof (rule Suc.IH [OF t(1)])
    show "silent ?t" using t(2,3) by (simp add: silent_def)
    show "NUMBEROFCONTINUES (eng ?t) = 0" using t(4) Suc.prems(3) by auto
    show "loop ?t = Some l'" by simp
    show "\<forall>i. lpc l' = At_finish_send i \<longrightarrow> 0 \<le> i" by (fact d(3))
    show "steps_left p (lpc l') = m" using d(2) Suc.prems(6) by simp
  qed
  then show ?case using step by simp
qed

section \<open>Delivery to the waiters\<close>

lemma waiting_update:
  assumes "i < length hs"
  shows "waiting (hs[i := h]) =
           waiting hs - (if hs ! i = Continue_wait then 1 else 0) + (if h = Continue_wait then 1 else 0)"
proof -
  have a: "hs = take i hs @ hs ! i # drop (Suc i) hs" using assms by (rule id_take_nth_drop)
  have b: "hs[i := h] = take i hs @ h # drop (Suc i) hs" using assms by (rule upd_conv_take_nth_drop)
  have "waiting hs = waiting (take i hs @ hs ! i # drop (Suc i) hs)" using a by simp
  then show ?thesis unfolding b by (simp add: waiting_def)
qed

lemma waiting_append: "waiting (hs @ [h]) = waiting hs + (if h = Continue_wait then 1 else 0)"
  by (simp add: waiting_def)

lemma waiting_nonneg: "0 \<le> waiting hs"
  by (simp add: waiting_def)

lemma waiting_pos_ex:
  assumes "0 < waiting hs"
  shows "\<exists>i<length hs. hs ! i = Continue_wait"
proof -
  have "filter (\<lambda>h. h = Continue_wait) hs \<noteq> []" using assms by (auto simp: waiting_def)
  then obtain h where "h \<in> set (filter (\<lambda>h. h = Continue_wait) hs)"
    by (cases "filter (\<lambda>h. h = Continue_wait) hs") auto
  then have "Continue_wait \<in> set hs" by auto
  then show ?thesis by (auto simp: in_set_conv_nth)
qed

lemma waiting_zero:
  assumes "waiting hs = 0" "i < length hs"
  shows "hs ! i \<noteq> Continue_wait"
proof
  assume "hs ! i = Continue_wait"
  then have "Continue_wait \<in> set hs" using assms(2) nth_mem [of i hs] by simp
  then have "filter (\<lambda>h. h = Continue_wait) hs \<noteq> []" by (auto simp: filter_empty_conv)
  then show False using assms(1) by (simp add: waiting_def)
qed

lemma handler_step_other:
  assumes "handler_step h e = Some (e', h')" "h \<noteq> Continue_entry" "h \<noteq> Continue_wait"
  shows "h' \<noteq> Continue_wait \<and> h' \<noteq> Continue_entry
       \<and> NUMBEROFCONTINUES e' = NUMBEROFCONTINUES e \<and> FINISHEDCHANNEL e' = FINISHEDCHANNEL e
       \<and> (DONECANCELINGCHANNEL e = None \<longrightarrow> DONECANCELINGCHANNEL e' = None)"
  using assms by (cases h) (auto split: option.splits if_splits)

lemma handler_step_wait:
  assumes "handler_step Continue_wait e = Some (e', h')"
  shows "\<exists>g. FINISHEDCHANNEL e = Some g \<and> h' = Continue_replied g \<and> e' = e\<lparr>FINISHEDCHANNEL := None\<rparr>"
  using assms by (auto split: option.splits)

lemma served_refl: "served g hs hs"
  by (simp add: served_def)

lemma served_append:
  assumes "served g hs0 hs"
  shows "served g hs0 (hs @ [h])"
  using assms by (auto simp: served_def nth_append)

lemma served_update:
  assumes "served g hs0 hs" "i < length hs" "hs ! i = Continue_wait \<longrightarrow> h = Continue_replied g"
    "(hs ! i = Continue_replied g \<longrightarrow> h = Continue_replied g)"
  shows "served g hs0 (hs[i := h])"
  using assms by (auto simp: served_def nth_list_update)

lemma accounted_eq:
  assumes "NUMBEROFCONTINUES (eng s') = NUMBEROFCONTINUES (eng s)"
    and "FINISHEDCHANNEL (eng s') = FINISHEDCHANNEL (eng s)"
    and "progress s' = progress s"
    and "waiting (handlers s') = waiting (handlers s)"
  shows "accounted d s' = accounted d s"
  using assms by (cases d) (auto simp: buffered_def progress_def)

lemma drain_inv_loop_step:
  assumes inv: "drain_inv how g s0 s" and l: "loop s = Some l"
    and d: "distributor_step ch l (lpc l) (eng s) = r"
  shows "r \<noteq> Panicked \<and> (\<forall>e l'. r = Next (e, l') \<longrightarrow> drain_inv how g s0 (s\<lparr>eng := e, loop := Some l'\<rparr>))"
proof -
  from inv l obtain dr where
    nc: "\<not> crashed s" and m: "memory (eng s) = memory (eng s0)"
    and ce: "Continue_entry \<notin> set (handlers s)"
    and sv: "served g (handlers s0) (handlers s)"
    and fc: "FINISHEDCHANNEL (eng s) = None \<or> FINISHEDCHANNEL (eng s) = Some g"
    and lw: "lworld l = g" and dr: "drain_of (lpc l) = Some (how, dr)"
    and ac: "accounted dr s"
    and dn: "how = Cancelled \<and> before_signal dr \<longrightarrow> DONECANCELINGCHANNEL (eng s) = None"
    and rp: "\<forall>how' g'. lpc l = Start_replied how' g' \<longrightarrow> g' = g"
    by (auto simp: drain_inv_def)
  note w0 = waiting_nonneg [of "handlers s"]
  show ?thesis
  proof (cases "lpc l")
    case At_cancel_alive
    then show ?thesis
      using nc m ce sv fc lw dr ac dn d by (auto simp: drain_inv_def progress_def buffered_def)
  next
    case At_cancel_turns
    then show ?thesis
      using nc m ce sv fc lw dr ac dn d w0 by (auto simp: drain_inv_def progress_def buffered_def)
  next
    case (At_cancel_send i)
    then show ?thesis
      using nc m ce sv fc lw dr ac dn d
      by (auto simp: drain_inv_def progress_def buffered_def split: option.splits if_splits)
  next
    case At_cancel_clear
    then show ?thesis
      using nc m ce sv fc lw dr ac dn d by (auto simp: drain_inv_def progress_def buffered_def)
  next
    case At_cancel_done
    then show ?thesis
      using nc m ce sv fc lw dr ac dn d
      by (auto simp: drain_inv_def progress_def buffered_def split: option.splits if_splits)
  next
    case At_finish_alive
    then show ?thesis
      using nc m ce sv fc lw dr ac dn d by (auto simp: drain_inv_def progress_def buffered_def)
  next
    case At_finish_turns
    then show ?thesis
      using nc m ce sv fc lw dr ac dn d w0 by (auto simp: drain_inv_def progress_def buffered_def)
  next
    case (At_finish_send i)
    then show ?thesis
      using nc m ce sv fc lw dr ac dn d
      by (auto simp: drain_inv_def progress_def buffered_def split: option.splits if_splits)
  next
    case At_finish_clear
    then show ?thesis
      using nc m ce sv fc lw dr ac dn d by (auto simp: drain_inv_def progress_def buffered_def)
  next
    case (At_start_assign how')
    then show ?thesis
      using nc m ce sv fc lw dr ac dn d by (auto simp: drain_inv_def progress_def buffered_def)
  next
    case (Start_replied how' g')
    then show ?thesis using d by auto
  qed (use dr in simp_all)
qed

lemma drain_inv_step:
  assumes inv: "drain_inv how g s0 s" and st: "sys_step a s = Some s'"
    and na: "\<not> is_continue_call a"
  shows "drain_inv how g s0 s'"
proof (cases a)
  case (Call_Start q rows')
  have "loop s \<noteq> None" using inv by (auto simp: drain_inv_def)
  then show ?thesis using st Call_Start by (auto split: if_splits option.splits)
next
  case (Call r)
  with st have s': "s' = s\<lparr>handlers := handlers s @ [entry r]\<rparr>" by (auto split: if_splits)
  have r: "entry r \<noteq> Continue_entry" "entry r \<noteq> Continue_wait"
    using na Call by (cases r; simp)+
  have w: "waiting (handlers s') = waiting (handlers s)"
    unfolding s' using r by (simp add: waiting_append)
  have ac: "accounted d s' = accounted d s" for d
    by (rule accounted_eq) (use w in \<open>simp_all add: s' progress_def\<close>)
  show ?thesis
    using inv r ac unfolding drain_inv_def
    by (auto simp: s' served_append)
next
  case (Loop_step ch)
  from st [unfolded Loop_step] show ?thesis
  proof (cases rule: sys_step_Loop_elims)
    case (panic l)
    then show ?thesis using drain_inv_loop_step [OF inv panic(1) refl, of ch] by simp
  next
    case (advance l e l')
    then show ?thesis using drain_inv_loop_step [OF inv advance(1) refl, of ch] by simp
  qed
next
  case (Handler_step j)
  from st [unfolded Handler_step] obtain e h where
    hs: "j < length (handlers s)" "handler_step (handlers s ! j) (eng s) = Some (e, h)"
      "s' = s\<lparr>eng := e, handlers := (handlers s)[j := h]\<rparr>"
    by (rule sys_step_Handler_elims)
  note fr = handler_step_frame [OF hs(2)]
  from inv obtain l d where
    nc: "\<not> crashed s" and m: "memory (eng s) = memory (eng s0)"
    and ce: "Continue_entry \<notin> set (handlers s)"
    and sv: "served g (handlers s0) (handlers s)"
    and fc: "FINISHEDCHANNEL (eng s) = None \<or> FINISHEDCHANNEL (eng s) = Some g"
    and l: "loop s = Some l" "lworld l = g" "drain_of (lpc l) = Some (how, d)"
    and ac: "accounted d s"
    and dn: "how = Cancelled \<and> before_signal d \<longrightarrow> DONECANCELINGCHANNEL (eng s) = None"
    and rp: "\<forall>how' g'. lpc l = Start_replied how' g' \<longrightarrow> g' = g"
    by (auto simp: drain_inv_def)
  have mem: "handlers s ! j \<in> set (handlers s)" using hs(1) by simp
  then have ne: "handlers s ! j \<noteq> Continue_entry" using ce by auto
  have sub: "set ((handlers s)[j := h]) \<subseteq> insert h (set (handlers s))"
    by (rule set_update_subset_insert)
  show ?thesis
  proof (cases "handlers s ! j = Continue_wait")
    case True
    from handler_step_wait [OF hs(2) [unfolded True]] obtain g' where
      g': "FINISHEDCHANNEL (eng s) = Some g'" "h = Continue_replied g'"
        "e = (eng s)\<lparr>FINISHEDCHANNEL := None\<rparr>"
      by blast
    have gg: "g' = g" using fc g'(1) by simp
    have w: "waiting (handlers s') = waiting (handlers s) - 1"
      unfolding hs(3) using waiting_update [OF hs(1), of h] True g'(2) by simp
    have b: "buffered (eng s) = 1" "buffered (eng s') = 0"
      using g'(1,3) by (simp_all add: buffered_def hs(3))
    have ac': "accounted d s'"
      using ac w b g'(1)
      by (cases d) (simp_all add: hs(3) g'(3) progress_def)
    have sv': "served g (handlers s0) (handlers s')"
      unfolding hs(3) using served_update [OF sv hs(1), of h] True g'(2) gg by simp
    have ce': "Continue_entry \<notin> set (handlers s')"
      using sub ce g'(2) by (auto simp: hs(3))
    show ?thesis
      unfolding drain_inv_def
      using nc m ce' sv' l ac' dn rp by (auto simp: hs(3) g'(3))
  next
    case False
    note o = handler_step_other [OF hs(2) ne False]
    have w: "waiting (handlers s') = waiting (handlers s)"
      unfolding hs(3) using waiting_update [OF hs(1), of h] False o by simp
    have ac': "accounted d s'"
      using ac accounted_eq [of s' s d] o fr w by (simp add: hs(3) progress_def)
    have nr: "handlers s ! j \<noteq> Continue_replied g"
      using hs(2) by auto
    have sv': "served g (handlers s0) (handlers s')"
      unfolding hs(3) using served_update [OF sv hs(1), of h] False nr by simp
    have ce': "Continue_entry \<notin> set (handlers s')"
      using sub ce o by (auto simp: hs(3))
    show ?thesis
      unfolding drain_inv_def
      using nc m ce' sv' fc l ac' dn rp o fr by (auto simp: hs(3))
  qed
qed

lemma drain_inv_exec:
  assumes "exec sch s = Some s'" and "drain_inv how g s0 s"
    and "\<forall>a\<in>set sch. \<not> is_continue_call a"
  shows "drain_inv how g s0 s'"
  using assms(1,2)
  by (rule exec_invariant) (use assms(3) drain_inv_step in blast)

lemma drain_loop_progress:
  assumes inv: "drain_inv how g s0 s" and fc: "FINISHEDCHANNEL (eng s) = None"
    and l: "loop s = Some l" and nr: "\<not> replied (lpc l)"
  shows "\<exists>e l'. distributor_step ch l (lpc l) (eng s) = Next (e, l')
           \<and> drain_measure (s\<lparr>eng := e, loop := Some l'\<rparr>) < drain_measure s"
proof -
  from inv l obtain dr where
    dr: "drain_of (lpc l) = Some (how, dr)"
    and ac: "accounted dr s"
    and dn: "how = Cancelled \<and> before_signal dr \<longrightarrow> DONECANCELINGCHANNEL (eng s) = None"
    by (auto simp: drain_inv_def)
  note w0 = waiting_nonneg [of "handlers s"]
  show ?thesis
  proof (cases "lpc l")
    case (At_start_assign how')
    then show ?thesis
      using dr ac l fc by (cases how') (auto simp: drain_measure_def buffered_def)
  next
    case (Start_replied how' g')
    then show ?thesis using nr by simp
  qed (use dr ac dn l fc w0 in \<open>auto simp: drain_measure_def buffered_def progress_def\<close>)
qed

lemma drain_complete:
  assumes "drain_inv how g s0 s"
  shows "\<exists>sch s'. exec sch s = Some s' \<and> (\<forall>a\<in>set sch. \<not> is_continue_call a)
           \<and> drain_inv how g s0 s' \<and> loop_pc s' = Some (Start_replied how g)
           \<and> FINISHEDCHANNEL (eng s') = None"
  using assms
proof (induction "drain_measure s" arbitrary: s rule: less_induct)
  case less
  note inv = less.prems
  from inv obtain l d where
    nc: "\<not> crashed s"
    and fc: "FINISHEDCHANNEL (eng s) = None \<or> FINISHEDCHANNEL (eng s) = Some g"
    and l: "loop s = Some l" "drain_of (lpc l) = Some (how, d)"
    and ac: "accounted d s"
    and rp: "\<forall>how' g'. lpc l = Start_replied how' g' \<longrightarrow> g' = g"
    by (auto simp: drain_inv_def)
  show ?case
  proof (cases "FINISHEDCHANNEL (eng s)")
    case (Some g')
    then have b: "buffered (eng s) = 1" by (simp add: buffered_def)
    have "0 < waiting (handlers s)"
      using ac b Some by (cases d) (auto simp: )
    from waiting_pos_ex [OF this] obtain j where
      j: "j < length (handlers s)" "handlers s ! j = Continue_wait" by blast
    let ?s1 = "s\<lparr>eng := (eng s)\<lparr>FINISHEDCHANNEL := None\<rparr>,
                  handlers := (handlers s)[j := Continue_replied g']\<rparr>"
    have st: "sys_step (Handler_step j) s = Some ?s1"
      using nc j Some by simp
    have inv1: "drain_inv how g s0 ?s1"
      by (rule drain_inv_step [OF inv st]) simp
    have "drain_measure ?s1 < drain_measure s"
      using l b by (simp add: drain_measure_def buffered_def)
    from less.hyps [OF this inv1] obtain sch s' where
      "exec sch ?s1 = Some s'" "\<forall>a\<in>set sch. \<not> is_continue_call a"
      "drain_inv how g s0 s'" "loop_pc s' = Some (Start_replied how g)"
      "FINISHEDCHANNEL (eng s') = None"
      by blast
    then have "exec (Handler_step j # sch) s = Some s'
        \<and> (\<forall>a\<in>set (Handler_step j # sch). \<not> is_continue_call a)
        \<and> drain_inv how g s0 s' \<and> loop_pc s' = Some (Start_replied how g)
        \<and> FINISHEDCHANNEL (eng s') = None"
      using st by simp
    then show ?thesis by blast
  next
    case None
    show ?thesis
    proof (cases "replied (lpc l)")
      case True
      then obtain how' g' where pc: "lpc l = Start_replied how' g'" by (cases "lpc l") simp_all
      then have "how' = how" "g' = g" using l(2) rp by simp_all
      then have "loop_pc s = Some (Start_replied how g)" using l(1) pc by (simp add: loop_pc_def)
      then have "exec [] s = Some s \<and> (\<forall>a\<in>set []. \<not> is_continue_call a)
        \<and> drain_inv how g s0 s \<and> loop_pc s = Some (Start_replied how g)
        \<and> FINISHEDCHANNEL (eng s) = None"
        using inv None by simp
      then show ?thesis by blast
    next
      case False
      from drain_loop_progress [OF inv None l(1) False, of PickCancel] obtain e l' where
        d: "distributor_step PickCancel l (lpc l) (eng s) = Next (e, l')"
          "drain_measure (s\<lparr>eng := e, loop := Some l'\<rparr>) < drain_measure s"
        by blast
      let ?s1 = "s\<lparr>eng := e, loop := Some l'\<rparr>"
      have st: "sys_step (Loop_step PickCancel) s = Some ?s1"
        using nc l(1) d(1) by simp
      have inv1: "drain_inv how g s0 ?s1"
        by (rule drain_inv_step [OF inv st]) simp
      from less.hyps [OF d(2) inv1] obtain sch s' where
        "exec sch ?s1 = Some s'" "\<forall>a\<in>set sch. \<not> is_continue_call a"
        "drain_inv how g s0 s'" "loop_pc s' = Some (Start_replied how g)"
        "FINISHEDCHANNEL (eng s') = None"
        by blast
      then have "exec (Loop_step PickCancel # sch) s = Some s'
          \<and> (\<forall>a\<in>set (Loop_step PickCancel # sch). \<not> is_continue_call a)
          \<and> drain_inv how g s0 s' \<and> loop_pc s' = Some (Start_replied how g)
          \<and> FINISHEDCHANNEL (eng s') = None"
        using st by simp
      then show ?thesis by blast
    qed
  qed
qed

lemma accounted_buffered:
  assumes "accounted d s" "FINISHEDCHANNEL (eng s) \<noteq> None"
  shows "progress s = (0, 0)"
  using assms by (cases d) auto

lemma accounted_done:
  assumes "accounted d s" "\<not> before_signal d"
  shows "progress s = (0, 0) \<and> NUMBEROFCONTINUES (eng s) = 0
       \<and> waiting (handlers s) = buffered (eng s)"
  using assms by (cases d) auto

lemma drain_inv_replied:
  assumes "drain_inv how g s0 s'" "loop_pc s' = Some (Start_replied how' g')"
  shows "how' = how \<and> g' = g \<and> progress s' = (0, 0) \<and> NUMBEROFCONTINUES (eng s') = 0
       \<and> waiting (handlers s') = buffered (eng s')"
proof -
  from assms(1) obtain l d where l: "loop s' = Some l" "drain_of (lpc l) = Some (how, d)"
    "accounted d s'" "\<forall>how' g'. lpc l = Start_replied how' g' \<longrightarrow> g' = g"
    by (auto simp: drain_inv_def)
  have pc: "lpc l = Start_replied how' g'" using assms(2) l(1) by (simp add: loop_pc_def)
  then have "how' = how" "d = Replied" "g' = g" using l(2,4) by simp_all
  then show ?thesis using l(3) by simp
qed

lemma drain_inv_all_served:
  assumes "drain_inv how g s0 s'" "loop_pc s' = Some (Start_replied how g)"
    "FINISHEDCHANNEL (eng s') = None"
  shows "\<forall>i<length (handlers s0). handlers s0 ! i = Continue_wait \<longrightarrow>
           handlers s' ! i = Continue_replied g"
proof (intro allI impI)
  fix i assume i: "i < length (handlers s0)" "handlers s0 ! i = Continue_wait"
  have sv: "served g (handlers s0) (handlers s')" using assms(1) by (simp add: drain_inv_def)
  have "waiting (handlers s') = 0"
    using drain_inv_replied [OF assms(1,2)] assms(3) by (simp add: buffered_def)
  moreover have il: "i < length (handlers s')" using sv i(1) by (simp add: served_def)
  ultimately have "handlers s' ! i \<noteq> Continue_wait" by (rule waiting_zero)
  then show "handlers s' ! i = Continue_replied g" using sv i by (auto simp: served_def)
qed

lemma select_takes_cancel:
  assumes "distributor_step ch l (At_select k) e = Next (e', l')" "lpc l' = At_cancel_alive"
  shows "e' = e\<lparr>CANCELCHANNEL := None\<rparr> \<and> l' = l\<lparr>lpc := At_cancel_alive\<rparr>"
  using assms by (auto split: if_splits option.splits pick.splits)

section \<open>The wait for the resume signal\<close>




section \<open>The grid stepper: claims\<close>

text \<open>
  Claim C9. On a grid of \<open>ImageHeight\<close> rows of \<open>ImageWidth\<close> cells, both extents positive,
  and at a cell inside it, every index the neighbour count forms is in bounds: for each
  offset in \<open>{-1, 0, 1}\<close> the function \<^verbatim>\<open>mod\<close> returns a value in \<open>[0, extent)\<close>, both
  index operations succeed, and the count returns without a panic.
\<close>

theorem aliveNeighbours_in_bounds:
  assumes "rect (ImageHeight p) (ImageWidth p) world"
    and "0 \<le> y" "y < ImageHeight p" "0 \<le> x" "x < ImageWidth p"
  shows "(\<forall>i\<in>{- 1, 0, 1}. \<forall>j\<in>{- 1, 0, 1}.
            \<exists>r c row. go_mod (y + i) (ImageHeight p) = Some r \<and> 0 \<le> r \<and> r < ImageHeight p
                  \<and> go_mod (x + j) (ImageWidth p) = Some c \<and> 0 \<le> c \<and> c < ImageWidth p
                  \<and> index world r = Some row \<and> index row c \<noteq> None)
       \<and> aliveNeighbours world y x p \<noteq> None"
proof (intro conjI ballI)
  fix i j :: int
  assume i: "i \<in> {- 1, 0, 1}" and j: "j \<in> {- 1, 0, 1}"
  let ?H = "ImageHeight p" and ?W = "ImageWidth p"
  have H: "0 < ?H" and W: "0 < ?W" and len: "int (length world) = ?H"
    using assms(1) by (auto simp: rect_def)
  have gy: "go_mod (y + i) ?H = Some ((y + i) mod ?H)"
    using i assms(2,3) by (intro go_mod_in_range [OF H]) auto
  have gx: "go_mod (x + j) ?W = Some ((x + j) mod ?W)"
    using j assms(4,5) by (intro go_mod_in_range [OF W]) auto
  have r: "0 \<le> (y + i) mod ?H" "(y + i) mod ?H < ?H" using H by simp_all
  have c: "0 \<le> (x + j) mod ?W" "(x + j) mod ?W < ?W" using W by simp_all
  have rl: "(y + i) mod ?H < int (length world)" using r len by simp
  then have "nat ((y + i) mod ?H) < length world" using r by linarith
  then have "world ! nat ((y + i) mod ?H) \<in> set world" by simp
  then have "int (length (world ! nat ((y + i) mod ?H))) = ?W"
    using assms(1) by (auto simp: rect_def)
  then have cl: "(x + j) mod ?W < int (length (world ! nat ((y + i) mod ?H)))"
    using c by simp
  show "\<exists>r c row. go_mod (y + i) ?H = Some r \<and> 0 \<le> r \<and> r < ?H
          \<and> go_mod (x + j) ?W = Some c \<and> 0 \<le> c \<and> c < ?W
          \<and> index world r = Some row \<and> index row c \<noteq> None"
    using gy gx r c index_in_range [OF r(1) rl] index_in_range [OF c(1) cl] by simp
next
  show "aliveNeighbours world y x p \<noteq> None"
    using aliveNeighbours_total [OF assms] by simp
qed

theorem aliveNeighbours_in_bounds_witness:
  "rect 3 3 column_rows
   \<and> (\<exists>r c row. go_mod (2 + 1) 3 = Some r \<and> 0 \<le> r \<and> r < 3
           \<and> go_mod (0 + - 1) 3 = Some c \<and> 0 \<le> c \<and> c < 3
           \<and> index column_rows r = Some row \<and> index row c \<noteq> None)
   \<and> aliveNeighbours column_rows 2 0 column_params \<noteq> None"
proof -
  have r: "rect (ImageHeight column_params) (ImageWidth column_params) column_rows"
    by (simp add: rect_def column_params_def column_rows_def)
  have dims: "ImageHeight column_params = 3" "ImageWidth column_params = 3"
    by (simp_all add: column_params_def)
  from aliveNeighbours_in_bounds [OF r, of 2 0]
  have all: "\<forall>i\<in>{- 1, 0, 1}. \<forall>j\<in>{- 1, 0, 1}.
            \<exists>r c row. go_mod (2 + i) 3 = Some r \<and> 0 \<le> r \<and> r < 3
                  \<and> go_mod (0 + j) 3 = Some c \<and> 0 \<le> c \<and> c < 3
                  \<and> index column_rows r = Some row \<and> index row c \<noteq> None"
    and total: "aliveNeighbours column_rows 2 0 column_params \<noteq> None"
    unfolding dims by simp_all
  have "\<exists>r c row. go_mod (2 + 1) 3 = Some r \<and> 0 \<le> r \<and> r < 3
                  \<and> go_mod (0 + - 1) 3 = Some c \<and> 0 \<le> c \<and> c < 3
                  \<and> index column_rows r = Some row \<and> index row c \<noteq> None"
    using all [THEN bspec, of 1, THEN bspec, of "- 1"] by simp
  then show ?thesis using r total unfolding dims by blast
qed

text \<open>
  Claim C1. On a grid whose cells are 0 or 255, one generation (lines 75 to 97) leaves in
  every cell of \<open>world\<close> the value the birth and survival rule gives: 255 when the cell was
  alive with 2 or 3 alive Moore neighbours, or dead with exactly 3, the neighbours taken at
  \<open>(coordinate + offset) mod extent\<close>; and 0 otherwise. The grid \<open>tempWorld\<close> is any grid of
  the same extents that shares no row with \<open>world\<close>, as the one the distributor allocates.
\<close>

theorem generation_applies_rule:
  assumes "rows_ok h world (ImageHeight p) (ImageWidth p)"
    and "rows_ok h tempWorld (ImageHeight p) (ImageWidth p)"
    and "set world \<inter> set tempWorld = {}"
    and "binary_cells (deref h world)"
    and "0 \<le> y" "y < ImageHeight p" "0 \<le> x" "x < ImageWidth p"
  shows "cell_after_generation p world tempWorld h y x =
           Some (spec_next_cell (deref h world) (ImageHeight p) (ImageWidth p) y x)"
proof -
  from generation_result [OF assms(1-3)] obtain h2 where
    g: "generation p world tempWorld h = Some h2"
    and d: "deref h2 world = next_grid p (deref h world)"
    and w2: "rows_ok h2 world (ImageHeight p) (ImageWidth p)"
    by blast
  have rc: "rect (ImageHeight p) (ImageWidth p) (deref h world)"
    using rows_ok_rect [OF assms(1)] assms(5-8) by simp
  note yl = rows_ok_nth(1,2) [OF w2 assms(5,6)]
  have xl: "x < int (length (arrays h2 (world ! nat y)))"
    using rows_ok_nth(4) [OF w2 assms(5,6)] assms(8) by simp
  have "load h2 world y x = Some (arrays h2 (world ! nat y) ! nat x)"
    by (rule load_in_range [OF assms(5) yl(1) assms(7) xl])
  also have "arrays h2 (world ! nat y) = deref h2 world ! nat y"
    using yl(2) by (simp add: deref_def)
  also have "deref h2 world ! nat y ! nat x = next_value p (deref h world) y x"
    using next_grid_nth [OF assms(5-8)] d by simp
  also have "\<dots> = spec_next_cell (deref h world) (ImageHeight p) (ImageWidth p) y x"
    by (rule next_value_spec [OF rc assms(4)])
  finally show ?thesis by (simp add: cell_after_generation_def g)
qed

theorem generation_applies_rule_witness:
  "rows_ok column_heap [0, 1, 2] 3 3 \<and> rows_ok column_heap [3, 4, 5] 3 3
   \<and> set [0, 1, 2] \<inter> set [3, 4, 5] = ({} :: nat set)
   \<and> binary_cells (deref column_heap [0, 1, 2])
   \<and> cell_after_generation column_params [0, 1, 2] [3, 4, 5] column_heap 0 0 = Some 255
   \<and> cell_after_generation column_params [0, 1, 2] [3, 4, 5] column_heap 1 1 = Some 255"
proof -
  have w: "rows_ok column_heap [0, 1, 2] (ImageHeight column_params) (ImageWidth column_params)"
    and t: "rows_ok column_heap [3, 4, 5] (ImageHeight column_params) (ImageWidth column_params)"
    by (simp_all add: rows_ok_def column_heap_def column_params_def)
  have d: "set [0, 1, 2] \<inter> set [3, 4, 5] = ({} :: nat set)" by simp
  have content: "deref column_heap [0, 1, 2] = column_rows"
    by (simp add: deref_def column_heap_def column_rows_def)
  have b: "binary_cells (deref column_heap [0, 1, 2])"
    unfolding content by (simp add: binary_cells_def column_rows_def)
  have dims: "ImageHeight column_params = 3" "ImageWidth column_params = 3"
    by (simp_all add: column_params_def)
  have s00: "spec_next_cell column_rows 3 3 0 0 = 255"
    and s11: "spec_next_cell column_rows 3 3 1 1 = 255"
    by (simp_all add: spec_next_cell_def spec_next_alive_def spec_neighbour_count_def
        count_around_def moore_offsets_def torus_cell_def column_rows_def)
  have "cell_after_generation column_params [0, 1, 2] [3, 4, 5] column_heap 0 0 = Some 255"
    using generation_applies_rule [OF w t d b, of 0 0] unfolding dims content s00 by simp
  moreover have "cell_after_generation column_params [0, 1, 2] [3, 4, 5] column_heap 1 1 = Some 255"
    using generation_applies_rule [OF w t d b, of 1 1] unfolding dims content s11 by simp
  ultimately show ?thesis using w t b by (simp add: dims)
qed

text \<open>
  Claim C10. One generation keeps the grid well formed: from a grid of \<open>ImageHeight\<close> rows
  of \<open>ImageWidth\<close> cells, each 0 or 255, it produces a grid of the same extents whose
  cells are 0 or 255; so the count of cells equal to 255 that \<^verbatim>\<open>getNumAliveCells\<close>
  returns for it is the number of its non-zero cells, the notion of alive the neighbour
  count uses.
\<close>

theorem generation_preserves_wellformed:
  assumes "rows_ok h world (ImageHeight p) (ImageWidth p)"
    and "rows_ok h tempWorld (ImageHeight p) (ImageWidth p)"
    and "set world \<inter> set tempWorld = {}"
    and "binary_cells (deref h world)"
  shows "\<exists>h'. generation p world tempWorld h = Some h'
           \<and> rows_ok h' world (ImageHeight p) (ImageWidth p)
           \<and> binary_cells (deref h' world)
           \<and> getNumAliveCells p (deref h' world) = Some (count_cells (\<lambda>v. v \<noteq> 0) (deref h' world))"
proof -
  from generation_result [OF assms(1-3)] obtain h2 where
    g: "generation p world tempWorld h = Some h2"
    and d: "deref h2 world = next_grid p (deref h world)"
    and w2: "rows_ok h2 world (ImageHeight p) (ImageWidth p)"
    by blast
  have b: "binary_cells (deref h2 world)" using next_grid_binary by (simp add: d)
  have "getNumAliveCells p (deref h2 world) = Some (count_cells (\<lambda>v. v = 255) (deref h2 world))"
    using w2 by (intro getNumAliveCells_total) (auto simp: rows_ok_def deref_def)
  then show ?thesis using g w2 b count_cells_binary [OF b] by simp
qed

theorem generation_preserves_wellformed_witness:
  "rows_ok column_heap [0, 1, 2] 3 3 \<and> rows_ok column_heap [3, 4, 5] 3 3
   \<and> set [0, 1, 2] \<inter> set [3, 4, 5] = ({} :: nat set)
   \<and> binary_cells (deref column_heap [0, 1, 2])
   \<and> (\<exists>h'. generation column_params [0, 1, 2] [3, 4, 5] column_heap = Some h'
         \<and> rows_ok h' [0, 1, 2] 3 3
         \<and> binary_cells (deref h' [0, 1, 2])
         \<and> getNumAliveCells column_params (deref h' [0, 1, 2])
             = Some (count_cells (\<lambda>v. v \<noteq> 0) (deref h' [0, 1, 2])))"
proof -
  have w: "rows_ok column_heap [0, 1, 2] (ImageHeight column_params) (ImageWidth column_params)"
    and t: "rows_ok column_heap [3, 4, 5] (ImageHeight column_params) (ImageWidth column_params)"
    by (simp_all add: rows_ok_def column_heap_def column_params_def)
  have d: "set [0, 1, 2] \<inter> set [3, 4, 5] = ({} :: nat set)" by simp
  have b: "binary_cells (deref column_heap [0, 1, 2])"
    by (simp add: deref_def column_heap_def binary_cells_def)
  have dims: "ImageHeight column_params = 3" "ImageWidth column_params = 3"
    by (simp_all add: column_params_def)
  show ?thesis
    using w t b generation_preserves_wellformed [OF w t d b] by (simp add: dims)
qed

text \<open>
  Claim C7, as stated: the stepper does not mutate the grid it is given. The code does:
  the copy of lines 93 to 97 writes the new generation into the cells of \<open>world\<close> itself.
  On the 1 by 1 torus the only cell is alive before the generation and dead after it.
\<close>

theorem generation_overwrites_input:
  "load single_heap [0] 0 0 = Some 255
   \<and> cell_after_generation single_params [0] [1] single_heap 0 0 = Some 0"
  by (simp add: cell_after_generation_def generation_def computeTurn_def copyBack_def
      aliveNeighbours_def for_loop_step for_loop_done load_def store_def index_def deref_def
      go_mod_def go_rem_def nextCell_def single_heap_def single_params_def)

text \<open>
  Claim C7, amended. The computation is a function of the parameters, the grid and the
  store. Its first phase (lines 75 to 92) writes \<open>tempWorld\<close> only: afterwards every
  row of \<open>world\<close>, and every other array outside \<open>tempWorld\<close>, holds its original
  value, and \<open>tempWorld\<close> holds the next generation. The second phase (lines 93 to
  97) then overwrites \<open>world\<close> in place with the contents of \<open>tempWorld\<close>.
\<close>

theorem computeTurn_leaves_input:
  assumes "rows_ok h world (ImageHeight p) (ImageWidth p)"
    and "rows_ok h tempWorld (ImageHeight p) (ImageWidth p)"
    and "set world \<inter> set tempWorld = {}"
  shows "\<exists>h1 h2. computeTurn p world tempWorld h = Some h1
           \<and> (\<forall>r. r \<notin> set tempWorld \<longrightarrow> arrays h1 r = arrays h r)
           \<and> deref h1 world = deref h world
           \<and> deref h1 tempWorld = next_grid p (deref h world)
           \<and> copyBack p world tempWorld h1 = Some h2
           \<and> deref h2 world = deref h1 tempWorld"
proof -
  from computeTurn_result [OF assms] obtain h1 where
    h1: "computeTurn p world tempWorld h = Some h1"
      "\<forall>r. r \<notin> set tempWorld \<longrightarrow> arrays h1 r = arrays h r"
    by blast
  have same: "deref h1 world = deref h world"
    using h1(2) assms(3) by (intro deref_frame) blast
  from generation_result [OF assms] obtain h2 where
    h2: "generation p world tempWorld h = Some h2"
      "deref h2 world = next_grid p (deref h world)"
      "\<forall>r. r \<notin> set world \<union> set tempWorld \<longrightarrow> arrays h2 r = arrays h r"
    by blast
  have c: "copyBack p world tempWorld h1 = Some h2"
    using h2(1) by (simp add: generation_def h1(1))
  have t1: "deref h1 tempWorld = next_grid p (deref h world)"
    using computeTurn_temp [OF assms h1(1)] .
  show ?thesis using h1 same t1 c h2(2) by simp
qed

theorem computeTurn_leaves_input_witness:
  "rows_ok single_heap [0] 1 1 \<and> rows_ok single_heap [1] 1 1 \<and> set [0] \<inter> set [1] = ({} :: nat set)
   \<and> (\<exists>h1 h2. computeTurn single_params [0] [1] single_heap = Some h1
         \<and> (\<forall>r. r \<notin> set [1] \<longrightarrow> arrays h1 r = arrays single_heap r)
         \<and> deref h1 [0] = [[255]]
         \<and> deref h1 [1] = next_grid single_params [[255]]
         \<and> copyBack single_params [0] [1] h1 = Some h2
         \<and> deref h2 [0] = deref h1 [1])"
proof -
  have w: "rows_ok single_heap [0] (ImageHeight single_params) (ImageWidth single_params)"
    and t: "rows_ok single_heap [1] (ImageHeight single_params) (ImageWidth single_params)"
    by (simp_all add: rows_ok_def single_heap_def single_params_def)
  have d: "set [0] \<inter> set [1] = ({} :: nat set)" by simp
  have content: "deref single_heap [0] = [[255]]"
    by (simp add: deref_def single_heap_def)
  have dims: "ImageHeight single_params = 1" "ImageWidth single_params = 1"
    by (simp_all add: single_params_def)
  show ?thesis
    using w t computeTurn_leaves_input [OF w t d] by (simp add: dims content)
qed

section \<open>The engine: claims\<close>

text \<open>
  Claim C8. In every state the engine reaches before any Start call, whatever other calls
  have been made and served, the counters are zero and the published grid is the nil
  grid: every reply of GetAliveCells is \<open>{0, 0}\<close> and every reply of Save is \<open>0\<close> with
  the empty grid. In any state at all, Save replies with the published counter and grid
  and leaves the engine as it was.
\<close>

theorem before_start_snapshot:
  assumes "exec sch init_sys = Some s" and "\<forall>a\<in>set sch. \<not> is_start a"
  shows "progress s = (0, 0) \<and> WORLD (eng s) = []
       \<and> (\<forall>a t. GetAliveCells_replied a t \<in> set (handlers s) \<longrightarrow> t = 0 \<and> a = 0)
       \<and> (\<forall>t g. Save_replied t g \<in> set (handlers s) \<longrightarrow> t = 0 \<and> g = [])
       \<and> (\<forall>e. handler_step Save_entry e = Some (e, Save_replied (COMPLETEDTURNS e) (WORLD e)))"
proof -
  have "idle_inv init_sys"
    by (simp add: idle_inv_def init_sys_def init_engine_def progress_def)
  with assms(1) have inv: "idle_inv s"
    by (rule exec_invariant) (use assms(2) idle_inv_step in blast)
  then show ?thesis unfolding idle_inv_def by auto
qed

theorem before_start_snapshot_witness:
  "\<exists>s. exec quiet_calls init_sys = Some s
      \<and> handlers s = [GetAliveCells_replied 0 0, Save_replied 0 [], Pause_read]
      \<and> progress s = (0, 0) \<and> WORLD (eng s) = []"
proof -
  have "map_option handlers (exec quiet_calls init_sys)
          = Some [GetAliveCells_replied 0 0, Save_replied 0 [], Pause_read]"
    by code_simp
  then obtain s where s: "exec quiet_calls init_sys = Some s"
    "handlers s = [GetAliveCells_replied 0 0, Save_replied 0 [], Pause_read]"
    by auto
  have q: "\<forall>a\<in>set quiet_calls. \<not> is_start a" by (simp add: quiet_calls_def)
  show ?thesis using before_start_snapshot [OF s(1) q] s by blast
qed


text \<open>
  Claim C3. With a run active whose stored parameters equal \<open>p\<close>, IsAlreadyRunning is to
  reply true. The handler does not test whether a run is active: it tests
  \<^verbatim>\<open>COMPLETEDTURNS - 1 > 0\<close> (main.go line 49). Start is called with three turns on the
  1 by 1 grid and the distributor publishes its first turn, so that \<open>COMPLETEDTURNS\<close> is 1
  and two turns are to go; a query with the parameters of this run then replies false,
  where the claim has true.
\<close>

theorem IsAlreadyRunning_early_false:
  "map_option snapshot (exec early_query init_sys)
     = Some (Some (At_select 1), (1, 0), short_params, [IsAlreadyRunning_replied False Completed])
   \<and> map_option run_active (exec early_query init_sys) = Some True"
  by code_simp

text \<open>
  The steps of the handler. In every state the engine reaches, a call of IsAlreadyRunning
  with parameters \<open>p\<close> replies false, without sending anything, when \<open>COMPLETEDTURNS\<close> is
  at most 1, which is the case whenever no run is active; it replies true when
  \<open>COMPLETEDTURNS\<close> is at least 2 and the stored parameters equal \<open>p\<close>; otherwise it goes
  on to send the cancel signal, which needs the channel's slot to be free, then waits: it
  has no step while \<open>DONECANCELINGCHANNEL\<close> is empty, and with a value there it takes it and
  replies false. A call that has replied on this path has the reply false, and the
  distributor has passed its send of line 62.
\<close>

lemma IsAlreadyRunning_protocol:
  assumes "exec sch init_sys = Some s" and "i < length (handlers s)" and "\<not> crashed s"
  shows "(handlers s ! i = IsAlreadyRunning_entry p \<longrightarrow>
            sys_step (Handler_step i) s =
              Some (s\<lparr>handlers := (handlers s)[i :=
                (if COMPLETEDTURNS (eng s) \<le> 1 then IsAlreadyRunning_replied False Completed
                 else if PARAMS (eng s) = p then IsAlreadyRunning_replied True Completed
                 else IsAlreadyRunning_send)]\<rparr>)
          \<and> (\<not> run_active s \<longrightarrow> COMPLETEDTURNS (eng s) \<le> 1))
       \<and> (handlers s ! i = IsAlreadyRunning_send \<longrightarrow>
            sys_step (Handler_step i) s =
              (if CANCELCHANNEL (eng s) = None
               then Some (s\<lparr>eng := (eng s)\<lparr>CANCELCHANNEL := Some True\<rparr>,
                            handlers := (handlers s)[i := IsAlreadyRunning_wait]\<rparr>)
               else None))
       \<and> (handlers s ! i = IsAlreadyRunning_wait \<longrightarrow>
            sys_step (Handler_step i) s =
              (if DONECANCELINGCHANNEL (eng s) = None then None
               else Some (s\<lparr>eng := (eng s)\<lparr>DONECANCELINGCHANNEL := None\<rparr>,
                            handlers := (handlers s)[i := IsAlreadyRunning_replied False Cancelled]\<rparr>)))
       \<and> (\<forall>b. handlers s ! i = IsAlreadyRunning_replied b Cancelled \<longrightarrow> b = False \<and> cancel_confirmed s)"
proof -
  note inv = rendezvous_inv_reachable [OF assms(1)]
  have mem: "handlers s ! i \<in> set (handlers s)" using assms(2) by simp
  have a: "\<not> run_active s \<longrightarrow> COMPLETEDTURNS (eng s) \<le> 1"
    using idle_counter [OF inv] by auto
  have d: "\<forall>b. handlers s ! i = IsAlreadyRunning_replied b Cancelled \<longrightarrow> b = False \<and> cancel_confirmed s"
    using inv mem unfolding rendezvous_inv_def by metis
  show ?thesis using a d assms(2,3) by (auto split: option.splits)
qed


lemma IsAlreadyRunning_protocol_example:
  "\<exists>s. exec later_query init_sys = Some s \<and> 0 < length (handlers s) \<and> \<not> crashed s
      \<and> handlers s ! 0 = IsAlreadyRunning_entry short_params
      \<and> COMPLETEDTURNS (eng s) = 2 \<and> PARAMS (eng s) = short_params
      \<and> sys_step (Handler_step 0) s
           = Some (s\<lparr>handlers := (handlers s)[0 := IsAlreadyRunning_replied True Completed]\<rparr>)"
proof -
  have "map_option (\<lambda>s. (handlers s, crashed s, COMPLETEDTURNS (eng s), PARAMS (eng s)))
          (exec later_query init_sys)
      = Some ([IsAlreadyRunning_entry short_params], False, 2, short_params)"
    by code_simp
  then obtain s where s: "exec later_query init_sys = Some s"
    "handlers s = [IsAlreadyRunning_entry short_params]" "\<not> crashed s"
    "COMPLETEDTURNS (eng s) = 2" "PARAMS (eng s) = short_params"
    by auto
  have i: "0 < length (handlers s)" using s(2) by simp
  show ?thesis
    using IsAlreadyRunning_protocol [OF s(1) i s(3), of short_params] s i by auto
qed





text \<open>
  Claim C2. Start is called on the fresh engine with parameters \<open>p\<close> and a grid of the
  extents \<open>p\<close> gives. In every execution in which the pause and the cancel channel stay
  empty, whatever other calls are made and served, the engine does not panic, and once the
  Start call has replied it has done so after the loop ran to completion, with its grid,
  whose contents are the one-generation function applied \<open>Turns p\<close> times to the initial
  contents. The call does reply: left to run, the distributor takes \<open>6 * n + 7\<close> steps
  to it, where \<open>n\<close> is \<open>Turns p\<close>, or 0 when \<open>Turns p\<close> is negative.
\<close>

theorem Start_returns_final_grid:
  assumes "fits p rows"
  shows "(\<forall>sch s. exec_within silent (Call_Start p rows # sch) init_sys = Some s \<longrightarrow>
            \<not> crashed s
          \<and> (\<forall>l how g. loop s = Some l \<and> lpc l = Start_replied how g \<longrightarrow>
                how = Completed \<and> g = lworld l
              \<and> deref (memory (eng s)) g = (next_grid p ^^ nat (Turns p)) rows))
       \<and> (\<exists>s l. exec (Call_Start p rows # replicate (6 * nat (Turns p) + 7) (Loop_step PickCancel))
                   init_sys = Some s
              \<and> \<not> crashed s \<and> loop s = Some l \<and> lpc l = Start_replied Completed (lworld l)
              \<and> deref (memory (eng s)) (lworld l) = (next_grid p ^^ nat (Turns p)) rows)"
proof (intro conjI allI impI)
  from start_quiet_inv [OF assms] obtain s1 where s1:
    "sys_step (Call_Start p rows) init_sys = Some s1" "quiet_inv p rows s1" "silent s1"
    "NUMBEROFCONTINUES (eng s1) = 0" "loop_pc s1 = Some At_entry"
    by blast
  {
    fix sch s assume ex: "exec_within silent (Call_Start p rows # sch) init_sys = Some s"
    then have "exec_within silent sch s1 = Some s" using s1(1) by (simp split: if_splits)
    then have inv: "quiet_inv p rows s"
      using s1(2) by (rule exec_within_invariant) (rule quiet_inv_step)
    show "\<not> crashed s" using inv by (simp add: quiet_inv_def)
    fix l how g assume r: "loop s = Some l \<and> lpc l = Start_replied how g"
    from inv r obtain n where n: "stage p (Start_replied how g) = Some n"
      "deref (memory (eng s)) (lworld l) = (next_grid p ^^ n) rows" "g = lworld l"
      by (auto simp: quiet_inv_def)
    have how: "how = Completed" using n(1) by (cases how) simp_all
    then have "n = nat (Turns p)" using n(1) by simp
    then show "how = Completed" "g = lworld l"
      "deref (memory (eng s)) g = (next_grid p ^^ nat (Turns p)) rows"
      using how n by simp_all
  }
  from s1(5) obtain l1 where l1: "loop s1 = Some l1" "lpc l1 = At_entry"
    by (auto simp: loop_pc_def)
  have "\<exists>s' l'. exec (replicate (6 * nat (Turns p) + 7) (Loop_step PickCancel)) s1 = Some s'
      \<and> quiet_inv p rows s' \<and> loop s' = Some l' \<and> steps_left p (lpc l') = 0"
    by (rule solo_run [OF s1(2,3,4) l1(1)]) (simp_all add: l1(2))
  then obtain s' l' where f: "exec (replicate (6 * nat (Turns p) + 7) (Loop_step PickCancel)) s1 = Some s'"
    "quiet_inv p rows s'" "loop s' = Some l'" "steps_left p (lpc l') = 0"
    by blast
  from f(2,3) obtain n where n: "stage p (lpc l') = Some n"
    "deref (memory (eng s')) (lworld l') = (next_grid p ^^ n) rows"
    "\<forall>how g. lpc l' = Start_replied how g \<longrightarrow> g = lworld l'" "\<not> crashed s'"
    by (auto simp: quiet_inv_def)
  from stage_finished [OF n(1) f(4)] obtain g where g: "lpc l' = Start_replied Completed g" by blast
  then have "n = nat (Turns p)" "g = lworld l'" using n(1,3) by simp_all
  then show "\<exists>s l. exec (Call_Start p rows # replicate (6 * nat (Turns p) + 7) (Loop_step PickCancel))
                   init_sys = Some s
              \<and> \<not> crashed s \<and> loop s = Some l \<and> lpc l = Start_replied Completed (lworld l)
              \<and> deref (memory (eng s)) (lworld l) = (next_grid p ^^ nat (Turns p)) rows"
    using s1(1) f(1,3) n(2,4) g by auto
qed

theorem Start_returns_final_grid_witness:
  "fits short_params [[255]]
   \<and> (\<exists>s l. exec (Call_Start short_params [[255]] # replicate 25 (Loop_step PickCancel)) init_sys = Some s
         \<and> \<not> crashed s \<and> loop s = Some l \<and> lpc l = Start_replied Completed (lworld l)
         \<and> deref (memory (eng s)) (lworld l) = [[0]])"
proof -
  have f: "fits short_params [[255]]" by (simp add: fits_def short_params_def)
  have t: "6 * nat (Turns short_params) + 7 = 25" by (simp add: short_params_def)
  have g: "(next_grid short_params ^^ nat (Turns short_params)) [[255]] = [[0]]"
    by code_simp
  show ?thesis
    using f Start_returns_final_grid [OF f] unfolding t g by blast
qed





text \<open>
  Claim C5. The grid is to reach every registered waiter before the cancellation is
  confirmed. The waiter count is read by the loop of lines 58 to 60 and reset by line 61,
  and a Continue call increments it (main.go line 74) without synchronisation. A run in
  its third turn is cancelled by a query with other parameters; the distributor takes the
  signal, resets the counters and leaves the loop of lines 58 to 60 with the count at 0;
  a Continue call then sets the count to 1 and waits; line 61 sets the count back to 0
  and line 62 confirms. In the end the query has replied and Start has returned, the
  channel of the grids is empty and the count is 0, and the Continue call is still waiting
  and has no step: its grid was never sent.
\<close>

theorem cancel_loses_late_waiter:
  "map_option snapshot (exec late_waiter_registers init_sys)
     = Some (Some At_cancel_clear, (0, 0), short_params, [IsAlreadyRunning_wait, Continue_wait])
   \<and> map_option delivery_state (exec late_waiter_registers init_sys) = Some (None, 1, None)
   \<and> map_option snapshot (exec late_waiter_cancel init_sys)
     = Some (Some (Start_replied Cancelled [0]), (0, 0), short_params,
             [IsAlreadyRunning_replied False Cancelled, Continue_wait])
   \<and> map_option delivery_state (exec late_waiter_cancel init_sys) = Some (None, 0, None)
   \<and> map_option snapshot (exec (late_waiter_cancel @ [Handler_step 1]) init_sys) = None"
  by code_simp

text \<open>
  Cancellation with the waiters registered before the distributor takes the signal. In a
  state the engine has reached, the distributor's select takes the cancel
  signal, with \<open>FINISHEDCHANNEL\<close> empty and \<open>NUMBEROFCONTINUES\<close> equal to the number of
  Continue calls blocked in their receive, and no further Continue call registers. From
  then on, whatever is scheduled, the distributor stays on lines 56 to 64 and the return
  into Start, and the store is never written again: no further generation is computed.
  Every one of the waiters is still waiting or has replied with the run's grid, and a grid
  is in the channel only after the counters have been reset. If a value is in
  \<open>DONECANCELINGCHANNEL\<close>, or a caller of IsAlreadyRunning has received one and replied,
  then the distributor has passed line 62, the counters and the waiter count are zero and
  the only waiter left, if any, has its grid in the channel. And the engine can get there:
  some schedule ends with Start replied, the counters and the waiter count zero, the
  channel empty, and every one of the waiters replied with the same grid. A caller that
  waits for the confirmation has no step while \<open>DONECANCELINGCHANNEL\<close> is empty.
\<close>

lemma cancel_drains_then_confirms:
  assumes "exec sch0 init_sys = Some s0"
    and "loop s0 = Some l" and "lpc l = At_select k"
    and "sys_step (Loop_step ch) s0 = Some s" and "loop_pc s = Some At_cancel_alive"
    and "FINISHEDCHANNEL (eng s0) = None"
    and "NUMBEROFCONTINUES (eng s0) = waiting (handlers s0)"
    and "Continue_entry \<notin> set (handlers s0)"
  shows "(\<forall>sch s'. exec sch s = Some s' \<and> (\<forall>a\<in>set sch. \<not> is_continue_call a) \<longrightarrow>
            memory (eng s') = memory (eng s0)
          \<and> (\<exists>l' d. loop s' = Some l' \<and> drain_of (lpc l') = Some (Cancelled, d))
          \<and> served (lworld l) (handlers s0) (handlers s')
          \<and> (FINISHEDCHANNEL (eng s') \<noteq> None \<longrightarrow>
                FINISHEDCHANNEL (eng s') = Some (lworld l) \<and> progress s' = (0, 0))
          \<and> (DONECANCELINGCHANNEL (eng s') \<noteq> None
                \<or> (\<exists>b. IsAlreadyRunning_replied b Cancelled \<in> set (handlers s')) \<longrightarrow>
                cancel_confirmed s' \<and> progress s' = (0, 0)
              \<and> NUMBEROFCONTINUES (eng s') = 0
              \<and> waiting (handlers s') = buffered (eng s'))
          \<and> (\<forall>i<length (handlers s'). handlers s' ! i = IsAlreadyRunning_wait
                  \<and> DONECANCELINGCHANNEL (eng s') = None \<longrightarrow>
                sys_step (Handler_step i) s' = None))
       \<and> (\<exists>sch s'. exec sch s = Some s'
              \<and> loop_pc s' = Some (Start_replied Cancelled (lworld l))
              \<and> progress s' = (0, 0) \<and> NUMBEROFCONTINUES (eng s') = 0
              \<and> FINISHEDCHANNEL (eng s') = None \<and> memory (eng s') = memory (eng s0)
              \<and> (\<forall>i<length (handlers s0). handlers s0 ! i = Continue_wait \<longrightarrow>
                    handlers s' ! i = Continue_replied (lworld l)))"
proof -
  from assms(4) have s: "\<not> crashed s0 \<and> s = s0\<lparr>eng := (eng s0)\<lparr>CANCELCHANNEL := None\<rparr>,
      loop := Some (l\<lparr>lpc := At_cancel_alive\<rparr>)\<rparr>"
  proof (cases rule: sys_step_Loop_elims)
    case (panic l0)
    then show ?thesis using assms(2,3,5) by (simp add: loop_pc_def)
  next
    case (advance l0 e l')
    have "l0 = l" using advance(1) assms(2) by simp
    moreover have "lpc l' = At_cancel_alive" using assms(5) advance(3) by (simp add: loop_pc_def)
    moreover have "\<not> crashed s0" using assms(4) by (auto split: if_splits)
    ultimately show ?thesis
      using select_takes_cancel [of ch l k "eng s0" e l'] advance(2,3) assms(3) by simp
  qed
  have reach: "exec (sch0 @ [Loop_step ch]) init_sys = Some s"
    using assms(1,4) by (simp add: exec_append)
  have "rendezvous_inv s" by (rule rendezvous_inv_reachable [OF reach])
  then have dn: "DONECANCELINGCHANNEL (eng s) = None"
    using assms(5) by (auto simp: rendezvous_inv_def cancel_confirmed_def loop_pc_def)
  have inv: "drain_inv Cancelled (lworld l) s0 s"
    using s assms(6,7,8) dn by (simp add: drain_inv_def served_refl)
  have safe: "memory (eng s') = memory (eng s0)
          \<and> (\<exists>l' d. loop s' = Some l' \<and> drain_of (lpc l') = Some (Cancelled, d))
          \<and> served (lworld l) (handlers s0) (handlers s')
          \<and> (FINISHEDCHANNEL (eng s') \<noteq> None \<longrightarrow>
                FINISHEDCHANNEL (eng s') = Some (lworld l) \<and> progress s' = (0, 0))
          \<and> (DONECANCELINGCHANNEL (eng s') \<noteq> None
                \<or> (\<exists>b. IsAlreadyRunning_replied b Cancelled \<in> set (handlers s')) \<longrightarrow>
                cancel_confirmed s' \<and> progress s' = (0, 0)
              \<and> NUMBEROFCONTINUES (eng s') = 0
              \<and> waiting (handlers s') = buffered (eng s'))
          \<and> (\<forall>i<length (handlers s'). handlers s' ! i = IsAlreadyRunning_wait
                  \<and> DONECANCELINGCHANNEL (eng s') = None \<longrightarrow>
                sys_step (Handler_step i) s' = None)"
    if "exec sch s = Some s'" "\<forall>a\<in>set sch. \<not> is_continue_call a" for sch s'
  proof -
    note i = drain_inv_exec [OF that(1) inv that(2)]
    have 3: "\<forall>i<length (handlers s'). handlers s' ! i = IsAlreadyRunning_wait
                  \<and> DONECANCELINGCHANNEL (eng s') = None \<longrightarrow>
                sys_step (Handler_step i) s' = None"
      by simp
    from i obtain l' d where d: "loop s' = Some l'" "drain_of (lpc l') = Some (Cancelled, d)"
      "accounted d s'"
      by (auto simp: drain_inv_def)
    have 1: "FINISHEDCHANNEL (eng s') \<noteq> None \<longrightarrow>
                FINISHEDCHANNEL (eng s') = Some (lworld l) \<and> progress s' = (0, 0)"
      using i accounted_buffered [OF d(3)] by (auto simp: drain_inv_def)
    have "exec ((sch0 @ [Loop_step ch]) @ sch) init_sys = Some s'"
      unfolding exec_append [of "sch0 @ [Loop_step ch]" sch] reach using that(1) by simp
    then have r: "rendezvous_inv s'" by (rule rendezvous_inv_reachable)
    have 2: "cancel_confirmed s' \<and> progress s' = (0, 0) \<and> NUMBEROFCONTINUES (eng s') = 0
              \<and> waiting (handlers s') = buffered (eng s')"
      if c: "DONECANCELINGCHANNEL (eng s') \<noteq> None
                \<or> (\<exists>b. IsAlreadyRunning_replied b Cancelled \<in> set (handlers s'))"
    proof -
      have cc: "cancel_confirmed s'" using r c unfolding rendezvous_inv_def by blast
      then have "done_sent (lpc l')" using d(1) by (simp add: cancel_confirmed_def)
      then have "\<not> before_signal d" using d(2) by (cases "lpc l'") auto
      then show ?thesis using accounted_done [OF d(3)] cc by simp
    qed
    show ?thesis using i d(1,2) 1 2 3 by (auto simp: drain_inv_def)
  qed
  from drain_complete [OF inv] obtain sch s' where c:
    "exec sch s = Some s'" "drain_inv Cancelled (lworld l) s0 s'"
    "loop_pc s' = Some (Start_replied Cancelled (lworld l))" "FINISHEDCHANNEL (eng s') = None"
    by blast
  have "memory (eng s') = memory (eng s0)" using c(2) by (simp add: drain_inv_def)
  then have "exec sch s = Some s'
              \<and> loop_pc s' = Some (Start_replied Cancelled (lworld l))
              \<and> progress s' = (0, 0) \<and> NUMBEROFCONTINUES (eng s') = 0
              \<and> FINISHEDCHANNEL (eng s') = None \<and> memory (eng s') = memory (eng s0)
              \<and> (\<forall>i<length (handlers s0). handlers s0 ! i = Continue_wait \<longrightarrow>
                    handlers s' ! i = Continue_replied (lworld l))"
    using c drain_inv_replied [OF c(2,3)] drain_inv_all_served [OF c(2,3,4)] by simp
  then show ?thesis using safe by blast
qed

lemma cancel_drains_then_confirms_example:
  "\<exists>s0 l s. exec two_waiters_cancel init_sys = Some s0 \<and> loop s0 = Some l \<and> lpc l = At_select 2
      \<and> progress s0 = (2, 0)
      \<and> handlers s0 = [Continue_wait, Continue_wait, IsAlreadyRunning_wait]
      \<and> sys_step (Loop_step PickCancel) s0 = Some s \<and> loop_pc s = Some At_cancel_alive
      \<and> (\<exists>sch s'. exec sch s = Some s'
            \<and> loop_pc s' = Some (Start_replied Cancelled (lworld l))
            \<and> progress s' = (0, 0) \<and> NUMBEROFCONTINUES (eng s') = 0
            \<and> memory (eng s') = memory (eng s0)
            \<and> handlers s' ! 0 = Continue_replied (lworld l)
            \<and> handlers s' ! 1 = Continue_replied (lworld l))"
proof -
  have "map_option (\<lambda>s. (loop_pc s, progress s, FINISHEDCHANNEL (eng s), NUMBEROFCONTINUES (eng s),
            handlers s)) (exec two_waiters_cancel init_sys)
      = Some (Some (At_select 2), (2, 0), None, 2,
              [Continue_wait, Continue_wait, IsAlreadyRunning_wait])"
    by code_simp
  then obtain s0 l where s0: "exec two_waiters_cancel init_sys = Some s0"
    "loop s0 = Some l" "lpc l = At_select 2" "progress s0 = (2, 0)"
    "FINISHEDCHANNEL (eng s0) = None" "NUMBEROFCONTINUES (eng s0) = 2"
    "handlers s0 = [Continue_wait, Continue_wait, IsAlreadyRunning_wait]"
    by (auto simp: loop_pc_def)
  have "map_option loop_pc (exec (two_waiters_cancel @ [Loop_step PickCancel]) init_sys)
      = Some (Some At_cancel_alive)"
    by code_simp
  then obtain s where s: "sys_step (Loop_step PickCancel) s0 = Some s"
    "loop_pc s = Some At_cancel_alive"
    unfolding exec_append s0(1) by (auto split: option.splits)
  have n: "NUMBEROFCONTINUES (eng s0) = waiting (handlers s0)"
    and e: "Continue_entry \<notin> set (handlers s0)"
    using s0(6,7) by (simp_all add: waiting_def)
  from cancel_drains_then_confirms [OF s0(1,2,3) s s0(5) n e]
  obtain sch s' where c: "exec sch s = Some s'"
    "loop_pc s' = Some (Start_replied Cancelled (lworld l))"
    "progress s' = (0, 0)" "NUMBEROFCONTINUES (eng s') = 0"
    "memory (eng s') = memory (eng s0)"
    "\<forall>i<length (handlers s0). handlers s0 ! i = Continue_wait \<longrightarrow>
        handlers s' ! i = Continue_replied (lworld l)"
    by blast
  have "handlers s' ! 0 = Continue_replied (lworld l)" "handlers s' ! 1 = Continue_replied (lworld l)"
    using c(6) s0(7) by simp_all
  then show ?thesis using s0 s c by blast
qed


end
